theory Spec2Isabelle
  imports Main "HOL-Library.Word" "HOL-Library.Sublist"
begin

section \<open>Go values shared by the whole package\<close>

text \<open>
  A Go \<^verbatim>\<open>error\<close> is an interface value that may be \<^verbatim>\<open>nil\<close>: it is modelled as
  \<open>error option\<close>, \<open>None\<close> being \<^verbatim>\<open>nil\<close>. The only errors the package builds itself come
  from \<^verbatim>\<open>errors.New(text)\<close>, whose \<^verbatim>\<open>Error()\<close> method gives the text back.
\<close>

datatype error = errors_New string

fun error_Error :: "error \<Rightarrow> string" where
  "error_Error (errors_New text) = text"

text \<open>The run-time panics that the modelled statements can raise.\<close>

datatype panic =
    NilDereference
  | SendOnClosedChannel
  | CloseOfClosedChannel
  | CloseOfNilChannel
  | MakechanSizeOutOfRange

text \<open>
  What executing one statement can do: complete with a value, block the goroutine, or
  panic.
\<close>

datatype 'a outcome = Returns 'a | Blocks | Panics panic

section \<open>Events (package pipeline)\<close>

type_synonym EventType = "8 word"

text \<open>\<^verbatim>\<open>const ( EventLog EventType = iota; EventError; EventMetric )\<close>\<close>

definition EventLog :: EventType where "EventLog = 0"
definition EventError :: EventType where "EventError = 1"
definition EventMetric :: EventType where "EventMetric = 2"

type_synonym LogLevel = "8 word"

text \<open>
  \<^verbatim>\<open>const ( LevelError LogLevel = iota + 3; LevelWarn; _; LevelInfo; LevelDebug )\<close>:
  every line of the block repeats the expression \<^verbatim>\<open>iota + 3\<close>, with \<^verbatim>\<open>iota\<close> the index
  of the line in the block; the blank identifier on line 2 takes a value and binds no name.
\<close>

definition iota_plus_3 :: "nat \<Rightarrow> LogLevel" where
  "iota_plus_3 iota = of_nat iota + 3"

definition LevelError :: LogLevel where "LevelError = iota_plus_3 0"
definition LevelWarn :: LogLevel where "LevelWarn = iota_plus_3 1"
definition LevelInfo :: LogLevel where "LevelInfo = iota_plus_3 3"
definition LevelDebug :: LogLevel where "LevelDebug = iota_plus_3 4"

text \<open>The names the const block binds, in order of declaration.\<close>

definition LogLevel_names :: "LogLevel list" where
  "LogLevel_names = [LevelError, LevelWarn, LevelInfo, LevelDebug]"

record ErrorEvent =
  msg :: string
  err :: "error option"
  temporary :: bool

record LogEvent =
  source :: string
  level :: LogLevel
  log_msg :: string

text \<open>
  The \<^verbatim>\<open>Event\<close> interface, as the sum of its implementations used here: \<^verbatim>\<open>ErrorEvent\<close>,
  \<^verbatim>\<open>LogEvent\<close> and the test double \<^verbatim>\<open>mock.Event\<close> (a type tag and a message).
  \<^verbatim>\<open>MetricEvent\<close> carries a float64 and takes part in no property below; it is left out.
\<close>

datatype Event =
    EvError ErrorEvent
  | EvLog LogEvent
  | EvMock EventType string

definition NewErrorEvent :: "string \<Rightarrow> error option \<Rightarrow> bool \<Rightarrow> Event" where
  "NewErrorEvent m e t = EvError \<lparr>msg = m, err = e, temporary = t\<rparr>"

definition NewLogEvent :: "string \<Rightarrow> LogLevel \<Rightarrow> string \<Rightarrow> Event" where
  "NewLogEvent s l m = EvLog \<lparr>source = s, level = l, log_msg = m\<rparr>"

text \<open>
  \<^verbatim>\<open>func (e ErrorEvent) String() string { return e.msg + ": " + e.err.Error() }\<close>:
  the method call \<^verbatim>\<open>e.err.Error()\<close> on a nil interface value panics.
\<close>

definition ErrorEvent_String :: "ErrorEvent \<Rightarrow> panic + string" where
  "ErrorEvent_String e =
     (case err e of
        None \<Rightarrow> Inl NilDereference
      | Some cause \<Rightarrow> Inr (msg e @ '': '' @ error_Error cause))"

definition ErrorEvent_Error :: "ErrorEvent \<Rightarrow> panic + string" where
  "ErrorEvent_Error e = ErrorEvent_String e"

definition ErrorEvent_IsTemporary :: "ErrorEvent \<Rightarrow> bool" where
  "ErrorEvent_IsTemporary e = temporary e"

definition ErrorEvent_Unwrap :: "ErrorEvent \<Rightarrow> error option" where
  "ErrorEvent_Unwrap e = err e"

definition LogEvent_String :: "LogEvent \<Rightarrow> string" where
  "LogEvent_String l = source l @ '': '' @ log_msg l"

fun Event_Type :: "Event \<Rightarrow> EventType" where
  "Event_Type (EvError e) = EventError"
| "Event_Type (EvLog l) = EventLog"
| "Event_Type (EvMock t m) = t"

fun Event_String :: "Event \<Rightarrow> panic + string" where
  "Event_String (EvError e) = ErrorEvent_String e"
| "Event_String (EvLog l) = Inr (LogEvent_String l)"
| "Event_String (EvMock t m) = Inr m"

section \<open>Channels\<close>

text \<open>
  A Go channel: its buffer (oldest value first), its capacity (0 for an unbuffered
  channel), whether it has been closed, and how many goroutines are parked in a receive
  on it. A channel variable may be \<^verbatim>\<open>nil\<close>: a handle is a \<open>chan option\<close>.
\<close>

record 'a chan =
  buf :: "'a list"
  cap :: nat
  closed :: bool
  recvq :: nat

definition make_chan :: "nat \<Rightarrow> 'a chan" where
  "make_chan n = \<lparr>buf = [], cap = n, closed = False, recvq = 0\<rparr>"

text \<open>
  \<^verbatim>\<open>make(chan T, n)\<close> with a capacity computed at run time. The run time (\<^verbatim>\<open>makechan\<close>)
  panics with "makechan: size out of range" when \<open>n\<close> is negative and when the buffer of
  \<open>n\<close> elements is larger than it can allocate. The largest capacity it accepts depends on
  the platform and on the size of the element type (on a 64-bit platform at most
  \<open>2 ^ 48\<close> bytes divided by the element size); it is not part of this repository and is
  the parameter \<open>lim\<close>. Below it the allocation is taken to succeed.
\<close>

definition makechan :: "nat \<Rightarrow> int \<Rightarrow> panic + 'a chan" where
  "makechan lim n =
     (if n < 0 \<or> int lim < n then Inl MakechanSizeOutOfRange else Inr (make_chan (nat n)))"

text \<open>
  One attempt at \<^verbatim>\<open>c <- v\<close> on a non-nil channel, as the run time decides it: a closed
  channel panics; a parked receiver takes the value directly; otherwise the value is
  queued when the buffer has room; otherwise the send cannot proceed.
  \<open>Sent c' handed\<close> gives the channel afterwards and the values handed to a receiver.
\<close>

datatype 'a sent = Sent "'a chan" "'a list" | SendBlocks | SendPanics

definition chan_send :: "'a chan \<Rightarrow> 'a \<Rightarrow> 'a sent" where
  "chan_send c v =
     (if closed c then SendPanics
      else if 0 < recvq c then Sent (c\<lparr>recvq := recvq c - 1\<rparr>) [v]
      else if length (buf c) < cap c then Sent (c\<lparr>buf := buf c @ [v]\<rparr>) []
      else SendBlocks)"

text \<open>
  One attempt at \<^verbatim>\<open><-c\<close>: the oldest buffered value if there is one; the closed
  indication on a closed and drained channel; otherwise the receive cannot proceed, and
  the receiver parks on the channel (\<open>chan_park\<close>) until a sender or a close wakes it.
\<close>

datatype 'a rcvd = Rcvd "'a chan" 'a | RecvClosed | RecvBlocks

definition chan_recv :: "'a chan \<Rightarrow> 'a rcvd" where
  "chan_recv c =
     (case buf c of
        v # vs \<Rightarrow> Rcvd (c\<lparr>buf := vs\<rparr>) v
      | [] \<Rightarrow> if closed c then RecvClosed else RecvBlocks)"

definition chan_park :: "'a chan \<Rightarrow> 'a chan" where
  "chan_park c = c\<lparr>recvq := recvq c + 1\<rparr>"

text \<open>\<^verbatim>\<open>close(c)\<close>: panics on a closed channel; wakes every parked receiver.\<close>

definition chan_close :: "'a chan \<Rightarrow> 'a chan option" where
  "chan_close c = (if closed c then None else Some (c\<lparr>closed := True, recvq := 0\<rparr>))"

section \<open>SendEvent (package pipeline)\<close>

text \<open>
  \<^verbatim>\<open>
  func SendEvent(eventC chan<- Event, event Event) bool {
      if eventC == nil { return false }
      select {
      case eventC <- event: return true
      default:              return false
      }
  }
  \<close>
  The result is the returned flag, the handle's channel afterwards, and the events handed
  directly to a parked receiver. The select takes its send case when the send can
  proceed, which for a closed channel means the panic; it takes \<^verbatim>\<open>default\<close> when the
  send would block.
\<close>

definition SendEvent ::
  "Event chan option \<Rightarrow> Event \<Rightarrow> (bool \<times> Event chan option \<times> Event list) outcome" where
  "SendEvent eventC event =
     (case eventC of
        None \<Rightarrow> Returns (False, None, [])
      | Some c \<Rightarrow>
          (case chan_send c event of
             Sent c' handed \<Rightarrow> Returns (True, Some c', handed)
           | SendBlocks \<Rightarrow> Returns (False, Some c, [])
           | SendPanics \<Rightarrow> Panics SendOnClosedChannel))"

text \<open>The blocking statement \<^verbatim>\<open>eventC <- event\<close>; a send on a nil channel blocks forever.\<close>

definition send_stmt :: "'a chan option \<Rightarrow> 'a \<Rightarrow> ('a chan option \<times> 'a list) outcome" where
  "send_stmt ch v =
     (case ch of
        None \<Rightarrow> Blocks
      | Some c \<Rightarrow>
          (case chan_send c v of
             Sent c' handed \<Rightarrow> Returns (Some c', handed)
           | SendBlocks \<Rightarrow> Blocks
           | SendPanics \<Rightarrow> Panics SendOnClosedChannel))"

section \<open>Stage constructors (package flow)\<close>

text \<open>
  A Go function value may be \<^verbatim>\<open>nil\<close>, so the constructors take \<open>option\<close> arguments. The
  stage structs hold the function once the constructor has checked it. A result
  \<^verbatim>\<open>(stage, error)\<close> is the sum \<open>error + stage\<close>. \<^verbatim>\<open>MapFunc\<close> returns a value and an
  error.
\<close>

type_synonym 'i PredicateFunc = "'i \<Rightarrow> bool"
type_synonym ('i, 'o) MapFunc = "'i \<Rightarrow> 'o \<times> error option"

record 'i Filter =
  predicate :: "'i PredicateFunc"

record ('i, 'o) Map =
  transform :: "('i, 'o) MapFunc"

record ('i, 'o) FilterMap =
  fm_predicate :: "'i PredicateFunc"
  fm_transform :: "('i, 'o) MapFunc"

record Buffer =
  size' :: int

definition NewFilter :: "'i PredicateFunc option \<Rightarrow> error + 'i Filter" where
  "NewFilter p =
     (case p of
        None \<Rightarrow> Inl (errors_New ''predicate func is nil'')
      | Some pr \<Rightarrow> Inr \<lparr>predicate = pr\<rparr>)"

definition NewMap :: "('i, 'o) MapFunc option \<Rightarrow> error + ('i, 'o) Map" where
  "NewMap t =
     (case t of
        None \<Rightarrow> Inl (errors_New ''transform func is nil'')
      | Some tr \<Rightarrow> Inr \<lparr>transform = tr\<rparr>)"

definition NewFilterMap ::
  "'i PredicateFunc option \<Rightarrow> ('i, 'o) MapFunc option \<Rightarrow> error + ('i, 'o) FilterMap" where
  "NewFilterMap p t =
     (case p of
        None \<Rightarrow> Inl (errors_New ''predicate func is nil'')
      | Some pr \<Rightarrow>
          (case t of
             None \<Rightarrow> Inl (errors_New ''transform func is nil'')
           | Some tr \<Rightarrow> Inr \<lparr>fm_predicate = pr, fm_transform = tr\<rparr>))"

definition NewBuffer :: "int \<Rightarrow> Buffer" where
  "NewBuffer n = \<lparr>size' = (if n \<le> 0 then 1 else n)\<rparr>"

section \<open>Logger sink (package sink)\<close>

text \<open>
  \<^verbatim>\<open>Logger.Load\<close> ranges over its input. Per item it calls \<^verbatim>\<open>json.MarshalIndent\<close>, on an
  error assigns the \<^verbatim>\<open>fmt.Sprintf\<close> fallback to \<^verbatim>\<open>formattedStr\<close>, then assigns
  \<^verbatim>\<open>string(formattedB)\<close> to the same variable in every case, and finally either sends
  \<^verbatim>\<open>NewErrorEvent("formatted data is empty", nil, true)\<close> (empty string) or prints the
  string. The two library functions are parameters; \<^verbatim>\<open>formattedStr\<close> is declared before the
  loop and threaded through it. The result lists what the sink does, in order.
\<close>

datatype sink_effect = Println string | EmitEvent Event

fun Logger_Load ::
  "('i \<Rightarrow> string \<times> error option) \<Rightarrow> ('i \<Rightarrow> string) \<Rightarrow> string \<Rightarrow> 'i list \<Rightarrow> sink_effect list" where
  "Logger_Load MarshalIndent Sprintf formattedStr [] = []"
| "Logger_Load MarshalIndent Sprintf formattedStr (data # rest) =
     (let (formattedB, er) = MarshalIndent data;
          formattedStr1 = (if er \<noteq> None then Sprintf data else formattedStr);
          formattedStr2 = formattedB
      in (if length formattedStr2 = 0
          then EmitEvent (NewErrorEvent ''formatted data is empty'' None True)
          else Println formattedStr2)
         # Logger_Load MarshalIndent Sprintf formattedStr2 rest)"

section \<open>Flow stages (package flow)\<close>

text \<open>
  Every \<^verbatim>\<open>Transform\<close> has the same shape:
  \<^verbatim>\<open>
  out := make(chan O, capacity)
  go func() {
      defer close(out)
      for v := range in { ...body... }
  }()
  return out
  \<close>
  A stage is therefore the capacity of its output channel and what the loop body does
  with one item: send a value on \<^verbatim>\<open>out\<close> (\<open>Forward\<close>), do nothing (\<open>Skip\<close>), or send an
  event on \<^verbatim>\<open>eventC\<close> with a blocking send and \<^verbatim>\<open>continue\<close> (\<open>Report\<close>).
\<close>

datatype 'o act = Forward 'o | Skip | Report Event

record ('i, 'o) stage =
  out_cap :: nat
  body :: "'i \<Rightarrow> 'o act"

text \<open>\<^verbatim>\<open>Passthrough.Transform\<close>: \<^verbatim>\<open>out := make(chan I)\<close>; body \<^verbatim>\<open>out <- v\<close>.\<close>

definition Passthrough_Transform :: "('i, 'i) stage" where
  "Passthrough_Transform = \<lparr>out_cap = 0, body = (\<lambda>v. Forward v)\<rparr>"

text \<open>
  \<^verbatim>\<open>Buffer.Transform\<close>: \<^verbatim>\<open>out := make(chan I, b.size)\<close>; body \<^verbatim>\<open>out <- v\<close>.
  When \<^verbatim>\<open>make\<close> panics, it does so in the caller, before any goroutine starts; otherwise
  the stage runs with an output channel of the capacity that was made.
\<close>

definition Buffer_loop :: "nat \<Rightarrow> ('i, 'i) stage" where
  "Buffer_loop n = \<lparr>out_cap = n, body = (\<lambda>v. Forward v)\<rparr>"

definition Buffer_Transform :: "nat \<Rightarrow> Buffer \<Rightarrow> panic + ('i, 'i) stage" where
  "Buffer_Transform lim b =
     (case (makechan lim (size' b) :: panic + 'i chan) of
        Inl p \<Rightarrow> Inl p
      | Inr out \<Rightarrow> Inr (Buffer_loop (cap out)))"

text \<open>\<^verbatim>\<open>Filter.Transform\<close>: body \<^verbatim>\<open>if f.predicate(v) { out <- v }\<close>.\<close>

definition Filter_Transform :: "'i Filter \<Rightarrow> ('i, 'i) stage" where
  "Filter_Transform f =
     \<lparr>out_cap = 0, body = (\<lambda>v. if predicate f v then Forward v else Skip)\<rparr>"

text \<open>
  \<^verbatim>\<open>Map.Transform\<close>: body
  \<^verbatim>\<open>val, err := m.transform(v); if err != nil { eventC <- NewErrorEvent("map transform error", err, true); continue }; out <- val\<close>.
\<close>

definition Map_Transform :: "('i, 'o) Map \<Rightarrow> ('i, 'o) stage" where
  "Map_Transform m =
     \<lparr>out_cap = 0,
      body = (\<lambda>v. case transform m v of
                    (val, er) \<Rightarrow>
                      if er \<noteq> None then Report (NewErrorEvent ''map transform error'' er True)
                      else Forward val)\<rparr>"

text \<open>
  \<^verbatim>\<open>FilterMap.Transform\<close>: body
  \<^verbatim>\<open>if f.predicate(v) { val, err := f.transform(v); if err != nil { eventC <- NewErrorEvent("filtermap error transforming data", err, true); continue }; out <- val }\<close>.
\<close>

definition FilterMap_Transform :: "('i, 'o) FilterMap \<Rightarrow> ('i, 'o) stage" where
  "FilterMap_Transform f =
     \<lparr>out_cap = 0,
      body = (\<lambda>v. if fm_predicate f v
                  then (case fm_transform f v of
                          (val, er) \<Rightarrow>
                            if er \<noteq> None
                            then Report (NewErrorEvent ''filtermap error transforming data'' er True)
                            else Forward val)
                  else Skip)\<rparr>"

section \<open>A stage running between its neighbours\<close>

text \<open>
  The goroutine of a stage runs concurrently with three other parties: the upstream
  producer, which sends the input items on \<^verbatim>\<open>in\<close> in order and then closes it; the
  downstream consumer, which receives from \<^verbatim>\<open>out\<close>; and the observer of the event stream.
  The state holds the items the producer has still to send, the three channels, the
  control point of the stage, the items the consumer has received so far, and the events
  whose send the stage has completed.

  Control points of the goroutine: at the head of the range loop (\<open>Recv\<close>), parked in the
  receive on \<^verbatim>\<open>in\<close> (\<open>RecvParked\<close>), at \<^verbatim>\<open>out <- val\<close> (\<open>SendOut\<close>), at \<^verbatim>\<open>eventC <- e\<close>
  (\<open>SendEv\<close>), returned after the deferred \<^verbatim>\<open>close(out)\<close> (\<open>Exited\<close>), or panicked.
\<close>

datatype 'o pc = Recv | RecvParked | SendOut 'o | SendEv Event | Exited | Panicked

record ('i, 'o) sys =
  pending :: "'i list"
  inC :: "'i chan"
  pc :: "'o pc"
  outC :: "'o chan"
  received :: "'o list"
  evC :: "Event chan option"
  emitted :: "Event list"

datatype actor = Producer | Stage | Consumer | Observer

definition after_body :: "'o act \<Rightarrow> 'o pc" where
  "after_body a = (case a of Forward val \<Rightarrow> SendOut val | Skip \<Rightarrow> Recv | Report e \<Rightarrow> SendEv e)"

text \<open>
  The producer sends its next item, or closes \<^verbatim>\<open>in\<close> once after the last one. A send that
  finds the stage parked hands the item to it, and the stage runs the loop body on it; a
  close wakes a parked stage, which then finds the channel closed.
\<close>

definition producer_step :: "('i, 'o) stage \<Rightarrow> ('i, 'o) sys \<Rightarrow> ('i, 'o) sys" where
  "producer_step st s =
     (case pending s of
        [] \<Rightarrow>
          (case chan_close (inC s) of
             None \<Rightarrow> s
           | Some c \<Rightarrow> s\<lparr>inC := c, pc := (if pc s = RecvParked then Recv else pc s)\<rparr>)
      | v # vs \<Rightarrow>
          (case chan_send (inC s) v of
             Sent c handed \<Rightarrow>
               (case handed of
                  [] \<Rightarrow> s\<lparr>pending := vs, inC := c\<rparr>
                | w # ws \<Rightarrow> s\<lparr>pending := vs, inC := c, pc := after_body (body st w)\<rparr>)
           | SendBlocks \<Rightarrow> s
           | SendPanics \<Rightarrow> s))"

text \<open>
  One step of the goroutine. A statement that cannot proceed leaves the state as it is:
  the goroutine stays blocked at that statement. When the range loop finds \<^verbatim>\<open>in\<close> closed
  and drained, the deferred \<^verbatim>\<open>close(out)\<close> runs and the goroutine returns.
\<close>

definition stage_step :: "('i, 'o) stage \<Rightarrow> ('i, 'o) sys \<Rightarrow> ('i, 'o) sys" where
  "stage_step st s =
     (case pc s of
        Recv \<Rightarrow>
          (case chan_recv (inC s) of
             Rcvd c v \<Rightarrow> s\<lparr>inC := c, pc := after_body (body st v)\<rparr>
           | RecvClosed \<Rightarrow>
               (case chan_close (outC s) of
                  None \<Rightarrow> s\<lparr>pc := Panicked\<rparr>
                | Some c \<Rightarrow> s\<lparr>outC := c, pc := Exited\<rparr>)
           | RecvBlocks \<Rightarrow> s\<lparr>inC := chan_park (inC s), pc := RecvParked\<rparr>)
      | RecvParked \<Rightarrow> s
      | SendOut val \<Rightarrow>
          (case chan_send (outC s) val of
             Sent c handed \<Rightarrow> s\<lparr>outC := c, received := received s @ handed, pc := Recv\<rparr>
           | SendBlocks \<Rightarrow> s
           | SendPanics \<Rightarrow> s\<lparr>pc := Panicked\<rparr>)
      | SendEv e \<Rightarrow>
          (case send_stmt (evC s) e of
             Returns (c, handed) \<Rightarrow> s\<lparr>evC := c, emitted := emitted s @ [e], pc := Recv\<rparr>
           | Blocks \<Rightarrow> s
           | Panics p \<Rightarrow> s\<lparr>pc := Panicked\<rparr>)
      | Exited \<Rightarrow> s
      | Panicked \<Rightarrow> s)"

text \<open>
  The consumer attempts a receive on \<^verbatim>\<open>out\<close>; when nothing is there it parks, and stays
  parked until the stage hands it a value or closes the channel.
\<close>

definition consumer_step :: "('i, 'o) sys \<Rightarrow> ('i, 'o) sys" where
  "consumer_step s =
     (if 0 < recvq (outC s) then s
      else (case chan_recv (outC s) of
              Rcvd c v \<Rightarrow> s\<lparr>outC := c, received := received s @ [v]\<rparr>
            | RecvClosed \<Rightarrow> s
            | RecvBlocks \<Rightarrow> s\<lparr>outC := chan_park (outC s)\<rparr>))"

text \<open>The observer does the same on the event stream, if there is one.\<close>

definition observer_step :: "('i, 'o) sys \<Rightarrow> ('i, 'o) sys" where
  "observer_step s =
     (case evC s of
        None \<Rightarrow> s
      | Some c \<Rightarrow>
          (if 0 < recvq c then s
           else (case chan_recv c of
                   Rcvd c' v \<Rightarrow> s\<lparr>evC := Some c'\<rparr>
                 | RecvClosed \<Rightarrow> s
                 | RecvBlocks \<Rightarrow> s\<lparr>evC := Some (chan_park c)\<rparr>)))"

fun step :: "('i, 'o) stage \<Rightarrow> actor \<Rightarrow> ('i, 'o) sys \<Rightarrow> ('i, 'o) sys" where
  "step st Producer s = producer_step st s"
| "step st Stage s = stage_step st s"
| "step st Consumer s = consumer_step s"
| "step st Observer s = observer_step s"

text \<open>
  A schedule says which party moves next; it stands for the timing of all four. \<open>run\<close>
  executes a schedule.
\<close>

fun run :: "('i, 'o) stage \<Rightarrow> actor list \<Rightarrow> ('i, 'o) sys \<Rightarrow> ('i, 'o) sys" where
  "run st [] s = s"
| "run st (a # as) s = run st as (step st a s)"

text \<open>
  The state right after \<^verbatim>\<open>Transform(in, eventC)\<close> returns: \<^verbatim>\<open>in\<close> is an open, empty
  channel of capacity \<open>n\<close> on which the producer will send \<open>xs\<close>; \<^verbatim>\<open>out\<close> is freshly made.
\<close>

definition start :: "('i, 'o) stage \<Rightarrow> nat \<Rightarrow> 'i list \<Rightarrow> Event chan option \<Rightarrow> ('i, 'o) sys" where
  "start st n xs eventC =
     \<lparr>pending = xs, inC = make_chan n, pc = Recv, outC = make_chan (out_cap st),
      received = [], evC = eventC, emitted = []\<rparr>"

text \<open>\<open>drain k\<close>: \<open>k\<close> rounds in which every party gets one turn.\<close>

fun drain :: "nat \<Rightarrow> actor list" where
  "drain 0 = []"
| "drain (Suc n) = [Producer, Stage, Consumer, Observer] @ drain n"

text \<open>The item or event that the stage holds while it is blocked in a send.\<close>

fun pc_out :: "'o pc \<Rightarrow> 'o list" where
  "pc_out (SendOut v) = [v]"
| "pc_out _ = []"

fun pc_ev :: "'o pc \<Rightarrow> Event list" where
  "pc_ev (SendEv e) = [e]"
| "pc_ev _ = []"

text \<open>An event stream that exists and has not been closed; the events queued on a handle.\<close>

definition accepting :: "'a chan option \<Rightarrow> bool" where
  "accepting e = (case e of None \<Rightarrow> False | Some c \<Rightarrow> \<not> closed c)"

definition backlog :: "'a chan option \<Rightarrow> nat" where
  "backlog e = (case e of None \<Rightarrow> 0 | Some c \<Rightarrow> length (buf c))"

text \<open>An event with its message text replaced, for comparing reports up to the text.\<close>

fun with_msg :: "string \<Rightarrow> Event \<Rightarrow> Event" where
  "with_msg m (EvError e) = EvError (e\<lparr>msg := m\<rparr>)"
| "with_msg m (EvLog l) = EvLog l"
| "with_msg m (EvMock t x) = EvMock t x"

section \<open>Two stages in a row\<close>

text \<open>
  \<^verbatim>\<open>second.Transform(first.Transform(in, eventC), eventC)\<close>: the output channel of the first
  stage is the input channel of the second, and both goroutines send their reports on the
  same event stream. The state has the producer's remaining items, the control points of
  both goroutines, the three item channels, the items the consumer has received, and the
  events sent so far in the order of their sends. The steps are those of a single stage;
  a send of the first stage that finds the second parked hands it the item, and the close
  of the middle channel wakes it.
\<close>

record ('i, 'm, 'o) pipe =
  pending1 :: "'i list"
  inC1 :: "'i chan"
  pc1 :: "'m pc"
  midC :: "'m chan"
  pc2 :: "'o pc"
  outC2 :: "'o chan"
  received2 :: "'o list"
  evC2 :: "Event chan option"
  emitted2 :: "Event list"

datatype pactor = PProducer | PStage1 | PStage2 | PConsumer | PObserver

definition pproducer_step ::
  "('i, 'm) stage \<Rightarrow> ('i, 'm, 'o) pipe \<Rightarrow> ('i, 'm, 'o) pipe" where
  "pproducer_step st1 p =
     (case pending1 p of
        [] \<Rightarrow>
          (case chan_close (inC1 p) of
             None \<Rightarrow> p
           | Some c \<Rightarrow> p\<lparr>inC1 := c, pc1 := (if pc1 p = RecvParked then Recv else pc1 p)\<rparr>)
      | v # vs \<Rightarrow>
          (case chan_send (inC1 p) v of
             Sent c handed \<Rightarrow>
               (case handed of
                  [] \<Rightarrow> p\<lparr>pending1 := vs, inC1 := c\<rparr>
                | w # ws \<Rightarrow> p\<lparr>pending1 := vs, inC1 := c, pc1 := after_body (body st1 w)\<rparr>)
           | SendBlocks \<Rightarrow> p
           | SendPanics \<Rightarrow> p))"

definition pstage1_step ::
  "('i, 'm) stage \<Rightarrow> ('m, 'o) stage \<Rightarrow> ('i, 'm, 'o) pipe \<Rightarrow> ('i, 'm, 'o) pipe" where
  "pstage1_step st1 st2 p =
     (case pc1 p of
        Recv \<Rightarrow>
          (case chan_recv (inC1 p) of
             Rcvd c v \<Rightarrow> p\<lparr>inC1 := c, pc1 := after_body (body st1 v)\<rparr>
           | RecvClosed \<Rightarrow>
               (case chan_close (midC p) of
                  None \<Rightarrow> p\<lparr>pc1 := Panicked\<rparr>
                | Some c \<Rightarrow>
                    p\<lparr>midC := c, pc1 := Exited,
                      pc2 := (if pc2 p = RecvParked then Recv else pc2 p)\<rparr>)
           | RecvBlocks \<Rightarrow> p\<lparr>inC1 := chan_park (inC1 p), pc1 := RecvParked\<rparr>)
      | RecvParked \<Rightarrow> p
      | SendOut val \<Rightarrow>
          (case chan_send (midC p) val of
             Sent c handed \<Rightarrow>
               (case handed of
                  [] \<Rightarrow> p\<lparr>midC := c, pc1 := Recv\<rparr>
                | w # ws \<Rightarrow> p\<lparr>midC := c, pc1 := Recv, pc2 := after_body (body st2 w)\<rparr>)
           | SendBlocks \<Rightarrow> p
           | SendPanics \<Rightarrow> p\<lparr>pc1 := Panicked\<rparr>)
      | SendEv e \<Rightarrow>
          (case send_stmt (evC2 p) e of
             Returns (c, handed) \<Rightarrow> p\<lparr>evC2 := c, emitted2 := emitted2 p @ [e], pc1 := Recv\<rparr>
           | Blocks \<Rightarrow> p
           | Panics x \<Rightarrow> p\<lparr>pc1 := Panicked\<rparr>)
      | Exited \<Rightarrow> p
      | Panicked \<Rightarrow> p)"

definition pstage2_step :: "('m, 'o) stage \<Rightarrow> ('i, 'm, 'o) pipe \<Rightarrow> ('i, 'm, 'o) pipe" where
  "pstage2_step st2 p =
     (case pc2 p of
        Recv \<Rightarrow>
          (case chan_recv (midC p) of
             Rcvd c v \<Rightarrow> p\<lparr>midC := c, pc2 := after_body (body st2 v)\<rparr>
           | RecvClosed \<Rightarrow>
               (case chan_close (outC2 p) of
                  None \<Rightarrow> p\<lparr>pc2 := Panicked\<rparr>
                | Some c \<Rightarrow> p\<lparr>outC2 := c, pc2 := Exited\<rparr>)
           | RecvBlocks \<Rightarrow> p\<lparr>midC := chan_park (midC p), pc2 := RecvParked\<rparr>)
      | RecvParked \<Rightarrow> p
      | SendOut val \<Rightarrow>
          (case chan_send (outC2 p) val of
             Sent c handed \<Rightarrow> p\<lparr>outC2 := c, received2 := received2 p @ handed, pc2 := Recv\<rparr>
           | SendBlocks \<Rightarrow> p
           | SendPanics \<Rightarrow> p\<lparr>pc2 := Panicked\<rparr>)
      | SendEv e \<Rightarrow>
          (case send_stmt (evC2 p) e of
             Returns (c, handed) \<Rightarrow> p\<lparr>evC2 := c, emitted2 := emitted2 p @ [e], pc2 := Recv\<rparr>
           | Blocks \<Rightarrow> p
           | Panics x \<Rightarrow> p\<lparr>pc2 := Panicked\<rparr>)
      | Exited \<Rightarrow> p
      | Panicked \<Rightarrow> p)"

definition pconsumer_step :: "('i, 'm, 'o) pipe \<Rightarrow> ('i, 'm, 'o) pipe" where
  "pconsumer_step p =
     (if 0 < recvq (outC2 p) then p
      else (case chan_recv (outC2 p) of
              Rcvd c v \<Rightarrow> p\<lparr>outC2 := c, received2 := received2 p @ [v]\<rparr>
            | RecvClosed \<Rightarrow> p
            | RecvBlocks \<Rightarrow> p\<lparr>outC2 := chan_park (outC2 p)\<rparr>))"

definition pobserver_step :: "('i, 'm, 'o) pipe \<Rightarrow> ('i, 'm, 'o) pipe" where
  "pobserver_step p =
     (case evC2 p of
        None \<Rightarrow> p
      | Some c \<Rightarrow>
          (if 0 < recvq c then p
           else (case chan_recv c of
                   Rcvd c' v \<Rightarrow> p\<lparr>evC2 := Some c'\<rparr>
                 | RecvClosed \<Rightarrow> p
                 | RecvBlocks \<Rightarrow> p\<lparr>evC2 := Some (chan_park c)\<rparr>)))"

fun pstep ::
  "('i, 'm) stage \<Rightarrow> ('m, 'o) stage \<Rightarrow> pactor \<Rightarrow> ('i, 'm, 'o) pipe \<Rightarrow> ('i, 'm, 'o) pipe" where
  "pstep st1 st2 PProducer p = pproducer_step st1 p"
| "pstep st1 st2 PStage1 p = pstage1_step st1 st2 p"
| "pstep st1 st2 PStage2 p = pstage2_step st2 p"
| "pstep st1 st2 PConsumer p = pconsumer_step p"
| "pstep st1 st2 PObserver p = pobserver_step p"

fun prun ::
  "('i, 'm) stage \<Rightarrow> ('m, 'o) stage \<Rightarrow> pactor list \<Rightarrow> ('i, 'm, 'o) pipe \<Rightarrow> ('i, 'm, 'o) pipe" where
  "prun st1 st2 [] p = p"
| "prun st1 st2 (a # as) p = prun st1 st2 as (pstep st1 st2 a p)"

definition pstart ::
  "('i, 'm) stage \<Rightarrow> ('m, 'o) stage \<Rightarrow> nat \<Rightarrow> 'i list \<Rightarrow> Event chan option \<Rightarrow> ('i, 'm, 'o) pipe" where
  "pstart st1 st2 n xs eventC =
     \<lparr>pending1 = xs, inC1 = make_chan n, pc1 = Recv, midC = make_chan (out_cap st1), pc2 = Recv,
      outC2 = make_chan (out_cap st2), received2 = [], evC2 = eventC, emitted2 = []\<rparr>"

fun pdrain :: "nat \<Rightarrow> pactor list" where
  "pdrain 0 = []"
| "pdrain (Suc n) = [PProducer, PStage1, PStage2, PConsumer, PObserver] @ pdrain n"

section \<open>EventCollector (package pipeline)\<close>

text \<open>
  A callback is an opaque function value of type \<open>'cb\<close>; \<open>None\<close> is \<^verbatim>\<open>nil\<close>. The collector
  keeps a pointer to its channel, so channels live in a heap (a list, the address being
  the index) and \<^verbatim>\<open>eventChan\<close> is an address or \<^verbatim>\<open>nil\<close>. \<^verbatim>\<open>wg\<close> is the WaitGroup counter.
\<close>

record 'cb EventCollector =
  bufferSize :: int
  workers :: int
  callbacks :: "'cb list"
  typedCallbacks :: "(EventType \<times> 'cb) list"
  wg :: int
  eventChan :: "nat option"
  isOpen :: bool

datatype 'cb EventCollectorOption =
    WithWorkers int
  | WithBufferSize int
  | WithCallback "'cb option"
  | WithTypedCallback EventType "'cb option"

fun apply_option :: "'cb EventCollectorOption \<Rightarrow> 'cb EventCollector \<Rightarrow> 'cb EventCollector" where
  "apply_option (WithWorkers n) c = (if 0 < n then c\<lparr>workers := n\<rparr> else c)"
| "apply_option (WithBufferSize n) c = (if 0 < n then c\<lparr>bufferSize := n\<rparr> else c)"
| "apply_option (WithCallback cb) c =
     (case cb of None \<Rightarrow> c | Some f \<Rightarrow> c\<lparr>callbacks := callbacks c @ [f]\<rparr>)"
| "apply_option (WithTypedCallback t cb) c =
     (case cb of None \<Rightarrow> c | Some f \<Rightarrow> c\<lparr>typedCallbacks := typedCallbacks c @ [(t, f)]\<rparr>)"

definition NewEventCollector :: "'cb EventCollectorOption list \<Rightarrow> 'cb EventCollector" where
  "NewEventCollector opts =
     foldl (\<lambda>c opt. apply_option opt c)
       \<lparr>bufferSize = 100, workers = 1, callbacks = [], typedCallbacks = [],
        wg = 0, eventChan = None, isOpen = False\<rparr>
       opts"

text \<open>\<^verbatim>\<open>processEvent\<close>: the callbacks invoked for one event, in order of invocation.\<close>

definition processEvent :: "'cb EventCollector \<Rightarrow> Event \<Rightarrow> 'cb list" where
  "processEvent c event =
     callbacks c @ map snd (filter (\<lambda>typed. fst typed = Event_Type event) (typedCallbacks c))"

record 'cb world =
  collector :: "'cb EventCollector"
  heap :: "Event chan list"
  serving :: "nat list"

text \<open>
  Besides the collector and the channels, the state holds the worker goroutines that are
  running: \<open>serving\<close> lists, per worker, the channel it ranges over. A worker ranges over
  the local variable \<^verbatim>\<open>eventChan\<close> of the \<^verbatim>\<open>Collect\<close> call that started it, not over the
  field \<^verbatim>\<open>c.eventChan\<close>.

  \<^verbatim>\<open>Collect\<close> is not one atomic action. Its statements, each one step of the calling
  goroutine:
  \<^verbatim>\<open>if c.isOpen.Load() { return c.eventChan }\<close> (\<open>CheckOpen\<close>);
  \<^verbatim>\<open>eventChan := make(chan Event, c.bufferSize)\<close> (\<open>MakeChan\<close>);
  \<^verbatim>\<open>c.isOpen.Store(true)\<close> (\<open>StoreOpen\<close>);
  \<^verbatim>\<open>c.eventChan = eventChan\<close> (\<open>StoreChan\<close>);
  the loop \<^verbatim>\<open>for range c.workers { c.wg.Add(1); go func() {...}() }\<close>, which runs
  \<open>max 0 workers\<close> times (\<open>StartWorkers\<close>); \<^verbatim>\<open>return eventChan\<close>.
  The program counter carries the local variable \<^verbatim>\<open>eventChan\<close> once it is set.
\<close>

datatype collect_pc =
    CheckOpen
  | MakeChan
  | StoreOpen nat
  | StoreChan nat
  | StartWorkers nat
  | Returned "nat option"
  | Crashed panic

fun collect_step :: "nat \<Rightarrow> collect_pc \<Rightarrow> 'cb world \<Rightarrow> collect_pc \<times> 'cb world" where
  "collect_step lim CheckOpen w =
     (if isOpen (collector w) then (Returned (eventChan (collector w)), w) else (MakeChan, w))"
| "collect_step lim MakeChan w =
     (case makechan lim (bufferSize (collector w)) of
        Inl p \<Rightarrow> (Crashed p, w)
      | Inr ch \<Rightarrow> (StoreOpen (length (heap w)), w\<lparr>heap := heap w @ [ch]\<rparr>))"
| "collect_step lim (StoreOpen a) w =
     (StoreChan a, w\<lparr>collector := (collector w)\<lparr>isOpen := True\<rparr>\<rparr>)"
| "collect_step lim (StoreChan a) w =
     (StartWorkers a, w\<lparr>collector := (collector w)\<lparr>eventChan := Some a\<rparr>\<rparr>)"
| "collect_step lim (StartWorkers a) w =
     (Returned (Some a),
      w\<lparr>collector := (collector w)\<lparr>wg := wg (collector w) + max 0 (workers (collector w))\<rparr>,
        serving := serving w @ replicate (nat (workers (collector w))) a\<rparr>)"
| "collect_step lim (Returned h) w = (Returned h, w)"
| "collect_step lim (Crashed p) w = (Crashed p, w)"

fun collect_steps :: "nat \<Rightarrow> nat \<Rightarrow> collect_pc \<times> 'cb world \<Rightarrow> collect_pc \<times> 'cb world" where
  "collect_steps lim 0 s = s"
| "collect_steps lim (Suc n) s = collect_steps lim n (collect_step lim (fst s) (snd s))"

text \<open>
  A \<^verbatim>\<open>Collect\<close> call that runs with no other call on the collector in progress: its (at
  most five) steps in a row. It returns the handle and the new state, or panics in
  \<^verbatim>\<open>make\<close>.
\<close>

definition EventCollector_Collect :: "nat \<Rightarrow> 'cb world \<Rightarrow> (nat option \<times> 'cb world) outcome" where
  "EventCollector_Collect lim w =
     (case collect_steps lim 5 (CheckOpen, w) of
        (Returned h, w') \<Rightarrow> Returns (h, w')
      | (Crashed p, w') \<Rightarrow> Panics p
      | (_, w') \<Rightarrow> Blocks)"

text \<open>
  \<^verbatim>\<open>Close\<close>, with no other call in progress: nothing when the collector is not open;
  otherwise it stores \<^verbatim>\<open>isOpen = false\<close>, closes \<^verbatim>\<open>c.eventChan\<close> (a panic when that is nil
  or already closed) and waits on the WaitGroup. The workers that range over the closed
  channel drain it and return, each taking one off the WaitGroup; with no such worker
  nothing drains it. \<^verbatim>\<open>c.wg.Wait()\<close> returns when the counter is zero, and blocks as long
  as workers on another channel are running.
\<close>

definition EventCollector_Close :: "'cb world \<Rightarrow> 'cb world outcome" where
  "EventCollector_Close w =
     (let c = collector w in
      if \<not> isOpen c then Returns w
      else
        (case eventChan c of
           None \<Rightarrow> Panics CloseOfNilChannel
         | Some a \<Rightarrow>
             if length (heap w) \<le> a then Panics NilDereference
             else
               (case chan_close (heap w ! a) of
                  None \<Rightarrow> Panics CloseOfClosedChannel
                | Some ch \<Rightarrow>
                    (let leaving = length (filter (\<lambda>b. b = a) (serving w));
                         left = wg c - int leaving
                     in if left = 0
                        then Returns
                          \<lparr>collector = c\<lparr>isOpen := False, wg := left\<rparr>,
                           heap = (heap w)[a := (if 0 < leaving then ch\<lparr>buf := []\<rparr> else ch)],
                           serving = filter (\<lambda>b. b \<noteq> a) (serving w)\<rparr>
                        else Blocks))))"

text \<open>A sequence of calls on one collector, one after another, stopping at the first panic.\<close>

datatype call = CallCollect | CallClose

fun calls :: "nat \<Rightarrow> call list \<Rightarrow> 'cb world \<Rightarrow> 'cb world outcome" where
  "calls lim [] w = Returns w"
| "calls lim (CallCollect # cs) w =
     (case EventCollector_Collect lim w of
        Returns (h, w') \<Rightarrow> calls lim cs w'
      | Blocks \<Rightarrow> Blocks
      | Panics p \<Rightarrow> Panics p)"
| "calls lim (CallClose # cs) w =
     (case EventCollector_Close w of
        Returns w' \<Rightarrow> calls lim cs w'
      | Blocks \<Rightarrow> Blocks
      | Panics p \<Rightarrow> Panics p)"

text \<open>
  Two goroutines that call \<^verbatim>\<open>Collect\<close> on the same collector at the same time: a schedule
  says whose step comes next.
\<close>

datatype caller = First | Second

fun race_step :: "nat \<Rightarrow> caller \<Rightarrow> collect_pc \<times> collect_pc \<times> 'cb world
    \<Rightarrow> collect_pc \<times> collect_pc \<times> 'cb world" where
  "race_step lim First (a, b, w) = (case collect_step lim a w of (a', w') \<Rightarrow> (a', b, w'))"
| "race_step lim Second (a, b, w) = (case collect_step lim b w of (b', w') \<Rightarrow> (a, b', w'))"

fun race :: "nat \<Rightarrow> caller list \<Rightarrow> collect_pc \<times> collect_pc \<times> 'cb world
    \<Rightarrow> collect_pc \<times> collect_pc \<times> 'cb world" where
  "race lim [] s = s"
| "race lim (t # ts) s = race lim ts (race_step lim t s)"

text \<open>A collector just built, with no channel allocated yet; the number of open channels.\<close>

definition fresh :: "'cb EventCollectorOption list \<Rightarrow> 'cb world" where
  "fresh opts = \<lparr>collector = NewEventCollector opts, heap = [], serving = []\<rparr>"

definition live_streams :: "'cb world \<Rightarrow> nat" where
  "live_streams w = length (filter (\<lambda>ch. \<not> closed ch) (heap w))"

section \<open>Notions used in the proofs\<close>

text \<open>What a loop body forwards and reports over a whole input sequence.\<close>

fun outs :: "('i \<Rightarrow> 'o act) \<Rightarrow> 'i list \<Rightarrow> 'o list" where
  "outs b [] = []"
| "outs b (v # vs) =
     (case b v of Forward val \<Rightarrow> val # outs b vs | Skip \<Rightarrow> outs b vs | Report e \<Rightarrow> outs b vs)"

fun evts :: "('i \<Rightarrow> 'o act) \<Rightarrow> 'i list \<Rightarrow> Event list" where
  "evts b [] = []"
| "evts b (v # vs) =
     (case b v of Forward val \<Rightarrow> evts b vs | Skip \<Rightarrow> evts b vs | Report e \<Rightarrow> e # evts b vs)"

text \<open>
  Everything delivered, queued, in flight or still to come, in stream order. Both
  sequences stay the same along every run.
\<close>

definition todo_out :: "('i, 'o) stage \<Rightarrow> ('i, 'o) sys \<Rightarrow> 'o list" where
  "todo_out st s =
     received s @ buf (outC s) @ pc_out (pc s) @ outs (body st) (buf (inC s) @ pending s)"

definition todo_ev :: "('i, 'o) stage \<Rightarrow> ('i, 'o) sys \<Rightarrow> Event list" where
  "todo_ev st s = emitted s @ pc_ev (pc s) @ evts (body st) (buf (inC s) @ pending s)"

text \<open>How the channels and the control point of the stage fit together.\<close>

definition consistent :: "('i, 'o) sys \<Rightarrow> bool" where
  "consistent s =
     ((0 < recvq (outC s) \<longrightarrow> buf (outC s) = [])
      \<and> (closed (outC s) = (pc s = Exited))
      \<and> (pc s = Exited \<longrightarrow> buf (inC s) = [] \<and> pending s = [] \<and> closed (inC s))
      \<and> recvq (inC s) = (if pc s = RecvParked then 1 else 0)
      \<and> (pc s = RecvParked \<longrightarrow> buf (inC s) = [] \<and> \<not> closed (inC s))
      \<and> (closed (inC s) \<longrightarrow> pending s = []))"

text \<open>A measure that every effective step decreases.\<close>

fun pcw :: "'o pc \<Rightarrow> nat" where
  "pcw Recv = 3"
| "pcw RecvParked = 2"
| "pcw (SendOut v) = 5"
| "pcw (SendEv e) = 5"
| "pcw Exited = 0"
| "pcw Panicked = 0"

definition waitbit :: "'a chan \<Rightarrow> nat" where
  "waitbit c = (if recvq c = 0 \<and> \<not> closed c then 1 else 0)"

definition potential :: "('i, 'o) sys \<Rightarrow> nat" where
  "potential s =
     6 * length (pending s) + 5 * length (buf (inC s)) + pcw (pc s) + length (buf (outC s))
     + (if closed (inC s) then 0 else 3) + waitbit (outC s)
     + (case evC s of None \<Rightarrow> 0 | Some c \<Rightarrow> length (buf c) + waitbit c)"

text \<open>
  The stage can still finish: it has not panicked, and either the event stream accepts
  events or no report is left to send.
\<close>

definition live :: "('i, 'o) stage \<Rightarrow> ('i, 'o) sys \<Rightarrow> bool" where
  "live st s =
     (pc s \<noteq> Panicked
      \<and> (accepting (evC s) \<or> pc_ev (pc s) @ evts (body st) (buf (inC s) @ pending s) = []))"

text \<open>The stage has not panicked and its event stream, if any, is not closed.\<close>

definition calm :: "('i, 'o) sys \<Rightarrow> bool" where
  "calm s = (pc s \<noteq> Panicked \<and> (case evC s of None \<Rightarrow> True | Some c \<Rightarrow> \<not> closed c))"

definition complete :: "('i, 'o) sys \<Rightarrow> bool" where
  "complete s = (pc s = Exited \<and> buf (outC s) = [])"

text \<open>When a party's step changes the state.\<close>

definition can_send :: "'a chan \<Rightarrow> bool" where
  "can_send c = (closed c \<or> 0 < recvq c \<or> length (buf c) < cap c)"

definition can_recv :: "'a chan \<Rightarrow> bool" where
  "can_recv c = (recvq c = 0 \<and> (buf c \<noteq> [] \<or> \<not> closed c))"

definition enabled_producer :: "('i, 'o) sys \<Rightarrow> bool" where
  "enabled_producer s =
     (\<not> closed (inC s)
      \<and> (pending s = [] \<or> 0 < recvq (inC s) \<or> length (buf (inC s)) < cap (inC s)))"

definition enabled_stage :: "('i, 'o) sys \<Rightarrow> bool" where
  "enabled_stage s =
     (case pc s of
        Recv \<Rightarrow> True
      | RecvParked \<Rightarrow> False
      | SendOut v \<Rightarrow> can_send (outC s)
      | SendEv e \<Rightarrow> (case evC s of None \<Rightarrow> False | Some c \<Rightarrow> can_send c)
      | Exited \<Rightarrow> False
      | Panicked \<Rightarrow> False)"

definition enabled_consumer :: "('i, 'o) sys \<Rightarrow> bool" where
  "enabled_consumer s = can_recv (outC s)"

definition enabled_observer :: "('i, 'o) sys \<Rightarrow> bool" where
  "enabled_observer s = (case evC s of None \<Rightarrow> False | Some c \<Rightarrow> can_recv c)"

fun enabled :: "actor \<Rightarrow> ('i, 'o) sys \<Rightarrow> bool" where
  "enabled Producer s = enabled_producer s"
| "enabled Stage s = enabled_stage s"
| "enabled Consumer s = enabled_consumer s"
| "enabled Observer s = enabled_observer s"

text \<open>
  A stage with no event stream whose next item makes the body report: it will stop at
  the send of that report and stay there.
\<close>

definition first_reports :: "('i, 'o) stage \<Rightarrow> 'i list \<Rightarrow> bool" where
  "first_reports st xs =
     (case xs of
        [] \<Rightarrow> False
      | v # vs \<Rightarrow> (case body st v of Report e \<Rightarrow> True | _ \<Rightarrow> False))"

definition wedged :: "('i, 'o) stage \<Rightarrow> ('i, 'o) sys \<Rightarrow> bool" where
  "wedged st s =
     (evC s = None \<and> received s = [] \<and> emitted s = [] \<and> buf (outC s) = [] \<and> \<not> closed (outC s)
      \<and> (case pc s of
            SendEv e \<Rightarrow> True
          | Recv \<Rightarrow> first_reports st (buf (inC s) @ pending s)
          | RecvParked \<Rightarrow> first_reports st (buf (inC s) @ pending s)
          | _ \<Rightarrow> False))"

text \<open>
  The second stage of a pipeline, seen as a stage on its own whose producer is the first
  stage: what that producer has still to send is what the first stage will still forward.
\<close>

definition second :: "('i, 'm) stage \<Rightarrow> ('i, 'm, 'o) pipe \<Rightarrow> ('m, 'o) sys" where
  "second st1 p =
     \<lparr>pending = pc_out (pc1 p) @ outs (body st1) (buf (inC1 p) @ pending1 p),
      inC = midC p, pc = pc2 p, outC = outC2 p, received = received2 p,
      evC = evC2 p, emitted = emitted2 p\<rparr>"

fun pcw1 :: "'o pc \<Rightarrow> nat" where
  "pcw1 Recv = 3"
| "pcw1 RecvParked = 2"
| "pcw1 (SendOut v) = 9"
| "pcw1 (SendEv e) = 9"
| "pcw1 Exited = 0"
| "pcw1 Panicked = 0"

definition upstream_potential :: "('i, 'm, 'o) pipe \<Rightarrow> nat" where
  "upstream_potential p =
     10 * length (pending1 p) + 7 * length (buf (inC1 p)) + pcw1 (pc1 p)
     + (if closed (inC1 p) then 0 else 3)"

definition ppotential :: "('i, 'm) stage \<Rightarrow> ('i, 'm, 'o) pipe \<Rightarrow> nat" where
  "ppotential st1 p = upstream_potential p + potential (second st1 p)"

definition penabled_producer :: "('i, 'm, 'o) pipe \<Rightarrow> bool" where
  "penabled_producer p =
     (\<not> closed (inC1 p)
      \<and> (pending1 p = [] \<or> 0 < recvq (inC1 p) \<or> length (buf (inC1 p)) < cap (inC1 p)))"

definition penabled_stage1 :: "('i, 'm, 'o) pipe \<Rightarrow> bool" where
  "penabled_stage1 p =
     (case pc1 p of
        Recv \<Rightarrow> True
      | RecvParked \<Rightarrow> False
      | SendOut v \<Rightarrow> can_send (midC p)
      | SendEv e \<Rightarrow> (case evC2 p of None \<Rightarrow> False | Some c \<Rightarrow> can_send c)
      | Exited \<Rightarrow> False
      | Panicked \<Rightarrow> False)"

definition penabled_stage2 :: "('i, 'm, 'o) pipe \<Rightarrow> bool" where
  "penabled_stage2 p =
     (case pc2 p of
        Recv \<Rightarrow> True
      | RecvParked \<Rightarrow> False
      | SendOut v \<Rightarrow> can_send (outC2 p)
      | SendEv e \<Rightarrow> (case evC2 p of None \<Rightarrow> False | Some c \<Rightarrow> can_send c)
      | Exited \<Rightarrow> False
      | Panicked \<Rightarrow> False)"

definition penabled_consumer :: "('i, 'm, 'o) pipe \<Rightarrow> bool" where
  "penabled_consumer p = can_recv (outC2 p)"

definition penabled_observer :: "('i, 'm, 'o) pipe \<Rightarrow> bool" where
  "penabled_observer p = (case evC2 p of None \<Rightarrow> False | Some c \<Rightarrow> can_recv c)"

fun penabled :: "pactor \<Rightarrow> ('i, 'm, 'o) pipe \<Rightarrow> bool" where
  "penabled PProducer p = penabled_producer p"
| "penabled PStage1 p = penabled_stage1 p"
| "penabled PStage2 p = penabled_stage2 p"
| "penabled PConsumer p = penabled_consumer p"
| "penabled PObserver p = penabled_observer p"

definition upstream_ok :: "('i, 'm, 'o) pipe \<Rightarrow> bool" where
  "upstream_ok p =
     ((closed (midC p) = (pc1 p = Exited))
      \<and> (pc1 p = Exited \<longrightarrow> buf (inC1 p) = [] \<and> pending1 p = [] \<and> closed (inC1 p))
      \<and> recvq (inC1 p) = (if pc1 p = RecvParked then 1 else 0)
      \<and> (pc1 p = RecvParked \<longrightarrow> buf (inC1 p) = [] \<and> \<not> closed (inC1 p))
      \<and> (closed (inC1 p) \<longrightarrow> pending1 p = [])
      \<and> pc1 p \<noteq> Panicked \<and> pc_ev (pc1 p) = [])"

definition quiet :: "('i, 'm) stage \<Rightarrow> bool" where
  "quiet st = (\<forall>v. case body st v of Report e \<Rightarrow> False | _ \<Rightarrow> True)"

text \<open>The state of a collector after any sequence of calls made one after another.\<close>

definition collector_ok :: "'cb world \<Rightarrow> bool" where
  "collector_ok w =
     (0 < bufferSize (collector w)
      \<and> wg (collector w) = int (length (serving w))
      \<and> (if isOpen (collector w)
          then (\<exists>hs ch. heap w = hs @ [ch] \<and> list_all closed hs \<and> \<not> closed ch
                  \<and> eventChan (collector w) = Some (length hs)
                  \<and> list_all (\<lambda>b. b = length hs) (serving w))
          else list_all closed (heap w) \<and> serving w = []))"

section \<open>Properties of runs\<close>

lemma outs_append: "outs b (xs @ ys) = outs b xs @ outs b ys"
  by (induction xs) (auto split: act.splits)

lemma evts_append: "evts b (xs @ ys) = evts b xs @ evts b ys"
  by (induction xs) (auto split: act.splits)

lemma run_append: "run st (as @ bs) s = run st bs (run st as s)"
  by (induction as arbitrary: s) simp_all

subsection \<open>Consistency of the channel bookkeeping\<close>

lemma consistent_start: "consistent (start st n xs e)"
  by (simp add: consistent_def start_def make_chan_def)

lemma consistent_producer: "consistent s \<Longrightarrow> consistent (producer_step st s)"
  by (cases "pc s")
     (auto simp: consistent_def producer_step_def chan_send_def chan_close_def after_body_def
        split: list.splits act.splits option.splits if_splits)

lemma consistent_stage: "consistent s \<Longrightarrow> consistent (stage_step st s)"
  by (cases "pc s")
     (auto simp: consistent_def stage_step_def chan_send_def chan_recv_def chan_park_def
        send_stmt_def chan_close_def after_body_def
        split: list.splits act.splits option.splits if_splits)

lemma consistent_consumer: "consistent s \<Longrightarrow> consistent (consumer_step s)"
  by (auto simp: consistent_def consumer_step_def chan_recv_def chan_park_def
        split: list.splits if_splits option.splits)

lemma consistent_observer: "consistent s \<Longrightarrow> consistent (observer_step s)"
  by (auto simp: consistent_def observer_step_def chan_recv_def chan_park_def
        split: list.splits if_splits option.splits)

lemma consistent_step: "consistent s \<Longrightarrow> consistent (step st a s)"
  by (cases a) (simp_all add: consistent_producer consistent_stage consistent_consumer consistent_observer)

lemma consistent_run: "consistent s \<Longrightarrow> consistent (run st as s)"
  by (induction as arbitrary: s) (simp_all add: consistent_step)

subsection \<open>Nothing is lost, duplicated or reordered\<close>

lemma todo_out_producer: "consistent s \<Longrightarrow> todo_out st (producer_step st s) = todo_out st s"
  by (cases "pc s")
     (auto simp: consistent_def todo_out_def outs_append producer_step_def chan_send_def
        chan_close_def after_body_def
        split: list.splits act.splits option.splits if_splits)

lemma todo_out_stage: "consistent s \<Longrightarrow> todo_out st (stage_step st s) = todo_out st s"
  by (cases "pc s")
     (auto simp: consistent_def todo_out_def outs_append stage_step_def chan_send_def
        chan_recv_def chan_park_def send_stmt_def chan_close_def after_body_def
        split: list.splits act.splits option.splits if_splits)

lemma todo_out_consumer: "consistent s \<Longrightarrow> todo_out st (consumer_step s) = todo_out st s"
  by (auto simp: consistent_def todo_out_def consumer_step_def chan_recv_def chan_park_def
        split: list.splits if_splits option.splits)

lemma todo_out_observer: "todo_out st (observer_step s) = todo_out st s"
  by (auto simp: todo_out_def observer_step_def chan_recv_def chan_park_def
        split: list.splits if_splits option.splits)

lemma todo_out_step: "consistent s \<Longrightarrow> todo_out st (step st a s) = todo_out st s"
  by (cases a) (simp_all add: todo_out_producer todo_out_stage todo_out_consumer todo_out_observer)

lemma todo_out_run: "consistent s \<Longrightarrow> todo_out st (run st as s) = todo_out st s"
  by (induction as arbitrary: s) (simp_all add: consistent_step todo_out_step)

lemma panicked_step: "pc s = Panicked \<Longrightarrow> consistent s \<Longrightarrow> pc (step st a s) = Panicked"
  by (cases a)
     (auto simp: consistent_def producer_step_def stage_step_def consumer_step_def observer_step_def
        chan_send_def chan_recv_def chan_close_def chan_park_def
        split: list.splits option.splits if_splits)

lemma panicked_run: "pc s = Panicked \<Longrightarrow> consistent s \<Longrightarrow> pc (run st as s) = Panicked"
  by (induction as arbitrary: s) (simp_all add: consistent_step panicked_step)

lemma todo_ev_producer: "consistent s \<Longrightarrow> todo_ev st (producer_step st s) = todo_ev st s"
  by (cases "pc s")
     (auto simp: consistent_def todo_ev_def evts_append producer_step_def chan_send_def
        chan_close_def after_body_def
        split: list.splits act.splits option.splits if_splits)

lemma todo_ev_stage:
  "consistent s \<Longrightarrow> pc (stage_step st s) \<noteq> Panicked \<Longrightarrow> todo_ev st (stage_step st s) = todo_ev st s"
  by (cases "pc s")
     (auto simp: consistent_def todo_ev_def evts_append stage_step_def chan_send_def
        chan_recv_def chan_park_def send_stmt_def chan_close_def after_body_def
        split: list.splits act.splits option.splits if_splits)

lemma todo_ev_consumer: "todo_ev st (consumer_step s) = todo_ev st s"
  by (auto simp: todo_ev_def consumer_step_def chan_recv_def chan_park_def
        split: list.splits if_splits option.splits)

lemma todo_ev_observer: "todo_ev st (observer_step s) = todo_ev st s"
  by (auto simp: todo_ev_def observer_step_def chan_recv_def chan_park_def
        split: list.splits if_splits option.splits)

lemma todo_ev_step:
  "consistent s \<Longrightarrow> pc (step st a s) \<noteq> Panicked \<Longrightarrow> todo_ev st (step st a s) = todo_ev st s"
  by (cases a) (simp_all add: todo_ev_producer todo_ev_stage todo_ev_consumer todo_ev_observer)

lemma todo_ev_run:
  "consistent s \<Longrightarrow> pc (run st as s) \<noteq> Panicked \<Longrightarrow> todo_ev st (run st as s) = todo_ev st s"
proof (induction as arbitrary: s)
  case Nil
  then show ?case by simp
next
  case (Cons a as)
  have c: "consistent (step st a s)"
    using Cons.prems(1) by (rule consistent_step)
  have "pc (step st a s) \<noteq> Panicked"
    using panicked_run [OF _ c, of st as] Cons.prems(2) by auto
  then have "todo_ev st (step st a s) = todo_ev st s"
    using Cons.prems(1) by (simp add: todo_ev_step)
  moreover have "todo_ev st (run st as (step st a s)) = todo_ev st (step st a s)"
    using Cons.IH [OF c] Cons.prems(2) by simp
  ultimately show ?case by simp
qed

subsection \<open>No panic unless the event stream is closed\<close>

lemma calm_producer: "consistent s \<Longrightarrow> calm s \<Longrightarrow> calm (producer_step st s)"
  by (cases "pc s")
     (auto simp: consistent_def calm_def producer_step_def chan_send_def
        chan_close_def after_body_def
        split: list.splits act.splits option.splits if_splits)

lemma calm_stage: "consistent s \<Longrightarrow> calm s \<Longrightarrow> calm (stage_step st s)"
  by (cases "pc s")
     (auto simp: consistent_def calm_def stage_step_def chan_send_def
        chan_recv_def chan_park_def send_stmt_def chan_close_def after_body_def
        split: list.splits act.splits option.splits if_splits)

lemma calm_consumer: "calm s \<Longrightarrow> calm (consumer_step s)"
  by (auto simp: calm_def consumer_step_def chan_recv_def chan_park_def
        split: list.splits if_splits option.splits)

lemma calm_observer: "calm s \<Longrightarrow> calm (observer_step s)"
  by (auto simp: calm_def observer_step_def chan_recv_def chan_park_def
        split: list.splits if_splits option.splits)

lemma calm_step: "consistent s \<Longrightarrow> calm s \<Longrightarrow> calm (step st a s)"
  by (cases a) (simp_all add: calm_producer calm_stage calm_consumer calm_observer)

lemma calm_run: "consistent s \<Longrightarrow> calm s \<Longrightarrow> calm (run st as s)"
  by (induction as arbitrary: s) (simp_all add: consistent_step calm_step)

lemma calm_start: "e = None \<or> accepting e \<Longrightarrow> calm (start st n xs e)"
  by (auto simp: calm_def start_def accepting_def split: option.splits)

subsection \<open>Liveness: a fair schedule finishes the stage\<close>

lemma live_producer: "consistent s \<Longrightarrow> live st s \<Longrightarrow> live st (producer_step st s)"
  by (cases "pc s")
     (auto simp: consistent_def live_def accepting_def evts_append producer_step_def chan_send_def
        chan_close_def after_body_def
        split: list.splits act.splits option.splits if_splits)

lemma live_stage: "consistent s \<Longrightarrow> live st s \<Longrightarrow> live st (stage_step st s)"
  by (cases "pc s")
     (auto simp: consistent_def live_def accepting_def evts_append stage_step_def chan_send_def
        chan_recv_def chan_park_def send_stmt_def chan_close_def after_body_def
        split: list.splits act.splits option.splits if_splits)

lemma live_consumer: "live st s \<Longrightarrow> live st (consumer_step s)"
  by (auto simp: live_def accepting_def consumer_step_def chan_recv_def chan_park_def
        split: list.splits if_splits option.splits)

lemma live_observer: "live st s \<Longrightarrow> live st (observer_step s)"
  by (auto simp: live_def accepting_def observer_step_def chan_recv_def chan_park_def
        split: list.splits if_splits option.splits)

lemma live_step: "consistent s \<Longrightarrow> live st s \<Longrightarrow> live st (step st a s)"
  by (cases a) (simp_all add: live_producer live_stage live_consumer live_observer)

lemma live_run: "consistent s \<Longrightarrow> live st s \<Longrightarrow> live st (run st as s)"
  by (induction as arbitrary: s) (simp_all add: consistent_step live_step)

lemma idle_producer: "\<not> enabled_producer s \<Longrightarrow> producer_step st s = s"
  by (auto simp: enabled_producer_def producer_step_def chan_send_def chan_close_def
      split: list.splits)

lemma idle_stage: "\<not> enabled_stage s \<Longrightarrow> stage_step st s = s"
  by (auto simp: enabled_stage_def can_send_def stage_step_def chan_send_def send_stmt_def
      split: pc.splits option.splits)

lemma idle_consumer: "\<not> enabled_consumer s \<Longrightarrow> consumer_step s = s"
  by (auto simp: enabled_consumer_def can_recv_def consumer_step_def chan_recv_def
      split: list.splits)

lemma idle_observer: "\<not> enabled_observer s \<Longrightarrow> observer_step s = s"
  by (auto simp: enabled_observer_def can_recv_def observer_step_def chan_recv_def
      split: list.splits option.splits)

lemma idle_step: "\<not> enabled a s \<Longrightarrow> step st a s = s"
  by (cases a) (simp_all add: idle_producer idle_stage idle_consumer idle_observer)

lemma potential_producer: "enabled_producer s \<Longrightarrow> potential (producer_step st s) < potential s"
  by (cases "pc s")
     (auto simp: enabled_producer_def potential_def waitbit_def producer_step_def chan_send_def
        chan_close_def after_body_def split: list.splits act.splits option.splits)

lemma potential_stage: "enabled_stage s \<Longrightarrow> potential (stage_step st s) < potential s"
  by (cases "pc s")
     (auto simp: enabled_stage_def can_send_def potential_def waitbit_def stage_step_def chan_send_def
        chan_recv_def chan_park_def send_stmt_def chan_close_def after_body_def
        split: list.splits act.splits option.splits)

lemma potential_consumer: "enabled_consumer s \<Longrightarrow> potential (consumer_step s) < potential s"
  by (auto simp: enabled_consumer_def can_recv_def potential_def waitbit_def consumer_step_def
        chan_recv_def chan_park_def split: list.splits)

lemma potential_observer: "enabled_observer s \<Longrightarrow> potential (observer_step s) < potential s"
  by (auto simp: enabled_observer_def can_recv_def potential_def waitbit_def observer_step_def
        chan_recv_def chan_park_def split: list.splits option.splits)

lemma potential_less: "enabled a s \<Longrightarrow> potential (step st a s) < potential s"
  by (cases a) (simp_all add: potential_producer potential_stage potential_consumer potential_observer)

lemma potential_step: "potential (step st a s) \<le> potential s"
  using idle_step [of a s st] potential_less [of a s st]
  by (cases "enabled a s") simp_all

lemma potential_run: "potential (run st as s) \<le> potential s"
proof (induction as arbitrary: s)
  case Nil
  then show ?case by simp
next
  case (Cons a as)
  have "potential (run st as (step st a s)) \<le> potential (step st a s)"
    by (rule Cons.IH)
  also have "\<dots> \<le> potential s"
    by (rule potential_step)
  finally show ?case by simp
qed

lemma progress:
  "consistent s \<Longrightarrow> live st s \<Longrightarrow> \<not> complete s \<Longrightarrow>
     enabled Producer s \<or> enabled Stage s \<or> enabled Consumer s \<or> enabled Observer s"
  by (cases "pc s")
     (auto simp: consistent_def live_def accepting_def complete_def enabled_producer_def enabled_stage_def
        enabled_consumer_def enabled_observer_def can_send_def can_recv_def split: option.splits)

lemma round_less:
  assumes "consistent s" and "live st s" and "\<not> complete s"
  shows "potential (run st [Producer, Stage, Consumer, Observer] s) < potential s"
proof -
  define s1 where "s1 = step st Producer s"
  define s2 where "s2 = step st Stage s1"
  define s3 where "s3 = step st Consumer s2"
  define s4 where "s4 = step st Observer s3"
  have r: "run st [Producer, Stage, Consumer, Observer] s = s4"
    by (simp add: s1_def s2_def s3_def s4_def)
  have le: "potential s1 \<le> potential s" "potential s2 \<le> potential s1"
    "potential s3 \<le> potential s2" "potential s4 \<le> potential s3"
    unfolding s1_def s2_def s3_def s4_def by (rule potential_step)+
  consider (p) "enabled Producer s"
    | (s) "\<not> enabled Producer s" "enabled Stage s"
    | (c) "\<not> enabled Producer s" "\<not> enabled Stage s" "enabled Consumer s"
    | (ob) "\<not> enabled Producer s" "\<not> enabled Stage s" "\<not> enabled Consumer s" "enabled Observer s"
    using progress [OF assms] by blast
  then have "potential s4 < potential s"
  proof cases
    case p
    then have "potential s1 < potential s"
      unfolding s1_def by (rule potential_less)
    with le show ?thesis by linarith
  next
    case s
    have "s1 = s"
      unfolding s1_def using s(1) by (rule idle_step)
    moreover have "potential (step st Stage s) < potential s"
      using s(2) by (rule potential_less)
    ultimately have "potential s2 < potential s"
      by (simp add: s2_def)
    with le show ?thesis by linarith
  next
    case c
    have "s1 = s"
      unfolding s1_def using c(1) by (rule idle_step)
    moreover have "step st Stage s = s"
      using c(2) by (rule idle_step)
    moreover have "potential (step st Consumer s) < potential s"
      using c(3) by (rule potential_less)
    ultimately have "potential s3 < potential s"
      by (simp add: s2_def s3_def)
    with le show ?thesis by linarith
  next
    case ob
    have "s1 = s"
      unfolding s1_def using ob(1) by (rule idle_step)
    moreover have "step st Stage s = s"
      using ob(2) by (rule idle_step)
    moreover have "step st Consumer s = s"
      using ob(3) by (rule idle_step)
    moreover have "potential (step st Observer s) < potential s"
      using ob(4) by (rule potential_less)
    ultimately show ?thesis
      by (simp add: s2_def s3_def s4_def)
  qed
  with r show ?thesis by simp
qed

lemma complete_step: "consistent s \<Longrightarrow> complete s \<Longrightarrow> complete (step st a s)"
  by (cases a)
     (auto simp: consistent_def complete_def producer_step_def stage_step_def consumer_step_def
        observer_step_def chan_send_def chan_recv_def chan_close_def chan_park_def
        split: list.splits option.splits if_splits)

lemma complete_run: "consistent s \<Longrightarrow> complete s \<Longrightarrow> complete (run st as s)"
  by (induction as arbitrary: s) (simp_all add: consistent_step complete_step)

lemma drain_completes:
  "consistent s \<Longrightarrow> live st s \<Longrightarrow> potential s \<le> n \<Longrightarrow> complete (run st (drain n) s)"
proof (induction n arbitrary: s)
  case 0
  show ?case
  proof (rule ccontr)
    assume "\<not> complete (run st (drain 0) s)"
    then have "\<not> complete s" by simp
    from round_less [OF "0.prems"(1,2) this] "0.prems"(3) show False by simp
  qed
next
  case (Suc n)
  let ?r = "run st [Producer, Stage, Consumer, Observer] s"
  have run: "run st (drain (Suc n)) s = run st (drain n) ?r"
    by simp
  have c: "consistent ?r"
    using Suc.prems(1) by (rule consistent_run)
  have l: "live st ?r"
    using Suc.prems(1,2) by (rule live_run)
  show ?case
  proof (cases "complete s")
    case True
    then have "complete ?r"
      using Suc.prems(1) by (simp add: complete_run del: run.simps)
    then have "complete (run st (drain n) ?r)"
      using c by (simp add: complete_run del: run.simps)
    with run show ?thesis by simp
  next
    case False
    from round_less [OF Suc.prems(1,2) False] Suc.prems(3)
    have "potential ?r \<le> n" by linarith
    from Suc.IH [OF c l this] run show ?thesis by simp
  qed
qed

subsection \<open>Summary of a run\<close>

lemma todo_out_start: "todo_out st (start st n xs e) = outs (body st) xs"
  by (simp add: todo_out_def start_def make_chan_def)

lemma todo_ev_start: "todo_ev st (start st n xs e) = evts (body st) xs"
  by (simp add: todo_ev_def start_def make_chan_def)

lemma potential_start: "potential (start st n xs e) \<le> 6 * length xs + 8 + backlog e"
  by (simp add: potential_def start_def make_chan_def waitbit_def backlog_def split: option.splits)

lemma live_start: "accepting e \<or> evts (body st) xs = [] \<Longrightarrow> live st (start st n xs e)"
  by (auto simp: live_def start_def make_chan_def accepting_def split: option.splits)

lemma run_conserves_out:
  assumes "s = run st sched (start st n xs e)"
  shows "received s @ buf (outC s) @ pc_out (pc s) @ outs (body st) (buf (inC s) @ pending s)
           = outs (body st) xs"
  using todo_out_run [OF consistent_start, of st sched st n xs e] assms
  by (simp add: todo_out_start) (simp add: todo_out_def)

lemma run_conserves_ev:
  assumes "s = run st sched (start st n xs e)" and "pc s \<noteq> Panicked"
  shows "emitted s @ pc_ev (pc s) @ evts (body st) (buf (inC s) @ pending s) = evts (body st) xs"
  using todo_ev_run [OF consistent_start, of st sched st n xs e] assms
  by (simp add: todo_ev_start) (simp add: todo_ev_def)

lemma run_exit:
  assumes "s = run st sched (start st n xs e)"
  shows "closed (outC s) = (pc s = Exited)"
    and "pc s = Exited \<Longrightarrow> buf (inC s) = [] \<and> pending s = [] \<and> closed (inC s)"
  using consistent_run [OF consistent_start, of st sched st n xs e] assms
  by (simp_all add: consistent_def)

lemma run_exited_out:
  assumes "s = run st sched (start st n xs e)" and "pc s = Exited"
  shows "received s @ buf (outC s) = outs (body st) xs"
  using run_conserves_out [OF assms(1)] run_exit(2) [OF assms] assms(2) by simp

lemma run_exited_ev:
  assumes "s = run st sched (start st n xs e)" and "pc s = Exited"
  shows "emitted s = evts (body st) xs"
  using run_conserves_ev [OF assms(1)] run_exit(2) [OF assms] assms(2) by simp

lemma run_prefix_out:
  assumes "s = run st sched (start st n xs e)"
  shows "prefix (received s) (outs (body st) xs)"
  using run_conserves_out [OF assms] by (metis prefixI)

lemma run_prefix_ev:
  assumes "s = run st sched (start st n xs e)" and "pc s \<noteq> Panicked"
  shows "prefix (emitted s) (evts (body st) xs)"
  using run_conserves_ev [OF assms] by (metis prefixI)

lemma run_no_panic:
  assumes "s = run st sched (start st n xs e)" and "e = None \<or> accepting e"
  shows "pc s \<noteq> Panicked"
  using calm_run [OF consistent_start calm_start [OF assms(2)], of st sched st n xs] assms(1)
  by (simp add: calm_def)

lemma run_finishes:
  assumes ok: "accepting e \<or> evts (body st) xs = []"
    and k: "6 * length xs + 8 + backlog e \<le> k"
    and s: "s = run st (sched @ drain k) (start st n xs e)"
  shows "pc s = Exited \<and> closed (outC s) \<and> buf (outC s) = []
         \<and> received s = outs (body st) xs \<and> emitted s = evts (body st) xs"
proof -
  let ?m = "run st sched (start st n xs e)"
  have c: "consistent ?m"
    using consistent_start by (rule consistent_run)
  have l: "live st ?m"
    using consistent_start live_start [OF ok] by (rule live_run)
  have "potential ?m \<le> potential (start st n xs e)"
    by (rule potential_run)
  also have "\<dots> \<le> k"
    using potential_start [of st n xs e] k by linarith
  finally have "complete (run st (drain k) ?m)"
    using c l by (simp add: drain_completes)
  then have fin: "complete s"
    by (simp add: s run_append)
  then have ex: "pc s = Exited" and empty: "buf (outC s) = []"
    by (simp_all add: complete_def)
  from run_exited_out [OF s ex] run_exited_ev [OF s ex] run_exit(1) [OF s] ex empty
  show ?thesis by simp
qed

subsection \<open>What each loop body forwards and reports\<close>

lemma outs_Forward: "outs (\<lambda>v. Forward v) xs = xs"
  by (induction xs) simp_all

lemma evts_Forward: "evts (\<lambda>v. Forward v) xs = []"
  by (induction xs) simp_all

lemma outs_Filter: "outs (body (Filter_Transform f)) xs = filter (predicate f) xs"
  by (induction xs) (simp_all add: Filter_Transform_def)

lemma evts_Filter: "evts (body (Filter_Transform f)) xs = []"
  by (induction xs) (simp_all add: Filter_Transform_def)

lemma outs_Map:
  "outs (body (Map_Transform m)) xs
     = map (\<lambda>v. fst (transform m v)) (filter (\<lambda>v. snd (transform m v) = None) xs)"
  by (induction xs) (simp_all add: Map_Transform_def split: prod.splits)

lemma evts_Map:
  "evts (body (Map_Transform m)) xs
     = map (\<lambda>v. NewErrorEvent ''map transform error'' (snd (transform m v)) True)
         (filter (\<lambda>v. snd (transform m v) \<noteq> None) xs)"
  by (induction xs) (simp_all add: Map_Transform_def split: prod.splits)

lemma outs_FilterMap:
  "outs (body (FilterMap_Transform f)) xs
     = map (\<lambda>v. fst (fm_transform f v))
         (filter (\<lambda>v. fm_predicate f v \<and> snd (fm_transform f v) = None) xs)"
  by (induction xs) (simp_all add: FilterMap_Transform_def split: prod.splits)

lemma evts_FilterMap:
  "evts (body (FilterMap_Transform f)) xs
     = map (\<lambda>v. NewErrorEvent ''filtermap error transforming data'' (snd (fm_transform f v)) True)
         (filter (\<lambda>v. fm_predicate f v \<and> snd (fm_transform f v) \<noteq> None) xs)"
  by (induction xs) (simp_all add: FilterMap_Transform_def split: prod.splits)

subsection \<open>A stage stuck at the send of a report\<close>

lemma wedged_producer: "consistent s \<Longrightarrow> wedged st s \<Longrightarrow> wedged st (producer_step st s)"
  by (cases "pc s")
     (auto simp: consistent_def wedged_def first_reports_def producer_step_def chan_send_def
        chan_close_def after_body_def
        split: list.splits act.splits option.splits if_splits)

lemma wedged_stage: "consistent s \<Longrightarrow> wedged st s \<Longrightarrow> wedged st (stage_step st s)"
  by (cases "pc s")
     (auto simp: consistent_def wedged_def first_reports_def stage_step_def chan_send_def
        chan_recv_def chan_park_def send_stmt_def chan_close_def after_body_def
        split: list.splits act.splits option.splits if_splits)

lemma wedged_consumer: "wedged st s \<Longrightarrow> wedged st (consumer_step s)"
  by (cases "pc s")
     (auto simp: wedged_def consumer_step_def chan_recv_def chan_park_def
        split: list.splits if_splits option.splits)

lemma wedged_observer: "wedged st s \<Longrightarrow> wedged st (observer_step s)"
  by (cases "pc s")
     (auto simp: wedged_def observer_step_def split: option.splits)

lemma wedged_step: "consistent s \<Longrightarrow> wedged st s \<Longrightarrow> wedged st (step st a s)"
  by (cases a) (simp_all add: wedged_producer wedged_stage wedged_consumer wedged_observer)

lemma wedged_run: "consistent s \<Longrightarrow> wedged st s \<Longrightarrow> wedged st (run st as s)"
  by (induction as arbitrary: s) (simp_all add: consistent_step wedged_step)

lemma wedged_start: "first_reports st xs \<Longrightarrow> wedged st (start st n xs None)"
  by (simp add: wedged_def start_def make_chan_def)

lemma wedged_forever:
  assumes "first_reports st xs"
  shows "received (run st sched (start st n xs None)) = []
     \<and> \<not> closed (outC (run st sched (start st n xs None)))
     \<and> pc (run st sched (start st n xs None)) \<noteq> Exited
     \<and> emitted (run st sched (start st n xs None)) = []"
  using wedged_run [OF consistent_start wedged_start [OF assms], of sched n]
  by (auto simp: wedged_def split: pc.splits)


subsection \<open>Stages that forward, stages that report\<close>

lemma forwarding_stage:
  assumes b: "body st = (\<lambda>v. Forward v)"
  shows "(let s = run st sched (start st n xs e) in
      prefix (received s) xs
      \<and> received s @ buf (outC s) @ pc_out (pc s) @ buf (inC s) @ pending s = xs
      \<and> (closed (outC s) \<longrightarrow>
           pc s = Exited \<and> closed (inC s) \<and> buf (inC s) = [] \<and> pending s = []
           \<and> received s @ buf (outC s) = xs)
      \<and> emitted s = [])
   \<and> (6 * length xs + 8 + backlog e \<le> m \<longrightarrow>
       (let s = run st (sched @ drain m) (start st n xs e) in
          closed (outC s) \<and> buf (outC s) = [] \<and> received s = xs \<and> length (received s) = length xs))"
proof -
  define s where "s = run st sched (start st n xs e)"
  define t where "t = run st (sched @ drain m) (start st n xs e)"
  have pre: "prefix (received s) xs"
    using run_prefix_out [OF s_def] by (simp add: b outs_Forward)
  have cons: "received s @ buf (outC s) @ pc_out (pc s) @ buf (inC s) @ pending s = xs"
    using run_conserves_out [OF s_def] by (simp add: b outs_Forward)
  have cl: "closed (outC s) \<longrightarrow>
           pc s = Exited \<and> closed (inC s) \<and> buf (inC s) = [] \<and> pending s = []
           \<and> received s @ buf (outC s) = xs"
    using run_exit [OF s_def] run_exited_out [OF s_def] by (simp add: b outs_Forward)
  have live: "live st s"
    unfolding s_def
    by (rule live_run [OF consistent_start live_start]) (simp add: b evts_Forward)
  then have np: "pc s \<noteq> Panicked"
    by (simp add: live_def)
  have ev: "emitted s = []"
    using run_conserves_ev [OF s_def np] by (simp add: b evts_Forward)
  have fin: "6 * length xs + 8 + backlog e \<le> m \<longrightarrow>
      closed (outC t) \<and> buf (outC t) = [] \<and> received t = xs \<and> length (received t) = length xs"
  proof
    assume m: "6 * length xs + 8 + backlog e \<le> m"
    have "accepting e \<or> evts (body st) xs = []"
      by (simp add: b evts_Forward)
    from run_finishes [OF this m t_def]
    show "closed (outC t) \<and> buf (outC t) = [] \<and> received t = xs \<and> length (received t) = length xs"
      by (simp add: b outs_Forward)
  qed
  show ?thesis
    using pre cons cl ev fin unfolding Let_def s_def t_def by blast
qed


lemma reporting_stage:
  "(let s = run st sched (start st n xs e) in
      prefix (received s) (outs (body st) xs)
      \<and> (e = None \<or> accepting e \<longrightarrow> pc s \<noteq> Panicked)
      \<and> (pc s \<noteq> Panicked \<longrightarrow> prefix (emitted s) (evts (body st) xs))
      \<and> (pc s = Exited \<longrightarrow>
           received s @ buf (outC s) = outs (body st) xs \<and> emitted s = evts (body st) xs))
   \<and> (accepting e \<and> 6 * length xs + 8 + backlog e \<le> k \<longrightarrow>
       (let s = run st (sched @ drain k) (start st n xs e) in
          pc s = Exited \<and> closed (outC s) \<and> buf (outC s) = []
          \<and> received s = outs (body st) xs \<and> emitted s = evts (body st) xs))"
proof -
  define s where "s = run st sched (start st n xs e)"
  define t where "t = run st (sched @ drain k) (start st n xs e)"
  have a: "prefix (received s) (outs (body st) xs)"
    by (rule run_prefix_out [OF s_def])
  have b: "pc s \<noteq> Panicked \<longrightarrow> prefix (emitted s) (evts (body st) xs)"
    using run_prefix_ev [OF s_def] by simp
  have b': "e = None \<or> accepting e \<longrightarrow> pc s \<noteq> Panicked"
    using run_no_panic [OF s_def] by simp
  have c: "pc s = Exited \<longrightarrow>
           received s @ buf (outC s) = outs (body st) xs \<and> emitted s = evts (body st) xs"
    using run_exited_out [OF s_def] run_exited_ev [OF s_def] by simp
  have d: "accepting e \<and> 6 * length xs + 8 + backlog e \<le> k \<longrightarrow>
          pc t = Exited \<and> closed (outC t) \<and> buf (outC t) = []
          \<and> received t = outs (body st) xs \<and> emitted t = evts (body st) xs"
    using run_finishes [OF _ _ t_def] by simp
  show ?thesis
    using a b b' c d unfolding Let_def s_def t_def by blast
qed


lemma with_msg_Map_reports:
  "map (with_msg ''filtermap error transforming data'') (evts (body (Map_Transform \<lparr>transform = t\<rparr>)) ys)
     = map (\<lambda>v. NewErrorEvent ''filtermap error transforming data'' (snd (t v)) True)
         (filter (\<lambda>v. snd (t v) \<noteq> None) ys)"
  by (simp add: evts_Map NewErrorEvent_def)

lemma FilterMap_as_composition:
  "outs (body (FilterMap_Transform \<lparr>fm_predicate = p, fm_transform = t\<rparr>)) xs
     = outs (body (Map_Transform \<lparr>transform = t\<rparr>)) (outs (body (Filter_Transform \<lparr>predicate = p\<rparr>)) xs)"
  "evts (body (FilterMap_Transform \<lparr>fm_predicate = p, fm_transform = t\<rparr>)) xs
     = map (with_msg ''filtermap error transforming data'')
         (evts (body (Filter_Transform \<lparr>predicate = p\<rparr>)) xs
          @ evts (body (Map_Transform \<lparr>transform = t\<rparr>)) (outs (body (Filter_Transform \<lparr>predicate = p\<rparr>)) xs))"
  by (simp_all add: outs_FilterMap outs_Map outs_Filter evts_FilterMap evts_Filter
        with_msg_Map_reports conj_commute)


subsection \<open>A pipeline runs as its second stage does\<close>

lemma quiet_body: "quiet st \<Longrightarrow> body st v \<noteq> Report e"
  unfolding quiet_def by (auto dest: spec [of _ v])

lemma upstream_start: "upstream_ok (pstart st1 st2 n xs e)"
  by (simp add: upstream_ok_def pstart_def make_chan_def)

lemma second_start:
  "second st1 (pstart st1 st2 n xs e) = start st2 (out_cap st1) (outs (body st1) xs) e"
  by (simp add: second_def pstart_def start_def make_chan_def)

lemma upstream_producer:
  "quiet st1 \<Longrightarrow> upstream_ok p \<Longrightarrow> upstream_ok (pproducer_step st1 p)"
  by (cases "pc1 p")
     (auto simp: upstream_ok_def pproducer_step_def chan_send_def chan_close_def after_body_def
        quiet_body
        split: list.splits option.splits if_splits act.splits)

lemma second_producer:
  "upstream_ok p \<Longrightarrow> second st1 (pproducer_step st1 p) = second st1 p"
  by (cases "pc1 p")
     (auto simp: upstream_ok_def second_def pproducer_step_def chan_send_def chan_close_def
        after_body_def outs_append
        split: list.splits option.splits if_splits act.splits)

lemma upstream_stage1:
  "quiet st1 \<Longrightarrow> upstream_ok p \<Longrightarrow> upstream_ok (pstage1_step st1 st2 p)"
  by (cases "pc1 p")
     (auto simp: upstream_ok_def pstage1_step_def chan_send_def chan_recv_def chan_park_def
        chan_close_def after_body_def quiet_body
        split: list.splits option.splits if_splits act.splits)

lemma second_stage1:
  "upstream_ok p \<Longrightarrow>
     second st1 (pstage1_step st1 st2 p) = second st1 p
     \<or> second st1 (pstage1_step st1 st2 p) = producer_step st2 (second st1 p)"
  by (cases "pc1 p")
     (auto simp: upstream_ok_def second_def pstage1_step_def producer_step_def chan_send_def
        chan_recv_def chan_park_def chan_close_def after_body_def outs_append
        split: list.splits option.splits if_splits act.splits)

lemma upstream_stage2: "upstream_ok p \<Longrightarrow> upstream_ok (pstage2_step st2 p)"
  by (cases "pc2 p")
     (auto simp: upstream_ok_def pstage2_step_def chan_send_def chan_recv_def chan_park_def
        chan_close_def send_stmt_def
        split: list.splits option.splits if_splits)

lemma second_stage2: "second st1 (pstage2_step st2 p) = stage_step st2 (second st1 p)"
  by (cases "pc2 p")
     (auto simp: second_def pstage2_step_def stage_step_def chan_send_def chan_recv_def
        chan_park_def chan_close_def send_stmt_def
        split: list.splits option.splits if_splits)

lemma upstream_consumer: "upstream_ok p \<Longrightarrow> upstream_ok (pconsumer_step p)"
  by (auto simp: upstream_ok_def pconsumer_step_def chan_recv_def chan_park_def
        split: list.splits)

lemma second_consumer: "second st1 (pconsumer_step p) = consumer_step (second st1 p)"
  by (auto simp: second_def pconsumer_step_def consumer_step_def chan_recv_def chan_park_def
        split: list.splits)

lemma upstream_observer: "upstream_ok p \<Longrightarrow> upstream_ok (pobserver_step p)"
  by (auto simp: upstream_ok_def pobserver_step_def chan_recv_def chan_park_def
        split: list.splits option.splits)

lemma second_observer: "second st1 (pobserver_step p) = observer_step (second st1 p)"
  by (auto simp: second_def pobserver_step_def observer_step_def chan_recv_def chan_park_def
        split: list.splits option.splits)

lemma upstream_step:
  "quiet st1 \<Longrightarrow> upstream_ok p \<Longrightarrow> upstream_ok (pstep st1 st2 a p)"
  by (cases a)
     (simp_all add: upstream_producer upstream_stage1 upstream_stage2 upstream_consumer
        upstream_observer)

lemma second_step:
  assumes "upstream_ok p"
  shows "\<exists>as. second st1 (pstep st1 st2 a p) = run st2 as (second st1 p)"
proof (cases a)
  case PProducer
  then show ?thesis
    using second_producer [OF assms, of st1] by (intro exI [of _ "[]"]) simp
next
  case PStage1
  from second_stage1 [OF assms, of st1 st2] show ?thesis
  proof
    assume "second st1 (pstage1_step st1 st2 p) = second st1 p"
    then show ?thesis using PStage1 by (intro exI [of _ "[]"]) simp
  next
    assume "second st1 (pstage1_step st1 st2 p) = producer_step st2 (second st1 p)"
    then show ?thesis using PStage1 by (intro exI [of _ "[Producer]"]) simp
  qed
next
  case PStage2
  then show ?thesis
    by (intro exI [of _ "[Stage]"]) (simp add: second_stage2)
next
  case PConsumer
  then show ?thesis
    by (intro exI [of _ "[Consumer]"]) (simp add: second_consumer)
next
  case PObserver
  then show ?thesis
    by (intro exI [of _ "[Observer]"]) (simp add: second_observer)
qed

lemma second_run:
  "quiet st1 \<Longrightarrow> upstream_ok p \<Longrightarrow>
     \<exists>as. second st1 (prun st1 st2 ps p) = run st2 as (second st1 p)"
proof (induction ps arbitrary: p)
  case Nil
  show ?case by (intro exI [of _ "[]"]) simp
next
  case (Cons a ps)
  from second_step [OF Cons.prems(2), of st1 st2 a]
  obtain as where 1: "second st1 (pstep st1 st2 a p) = run st2 as (second st1 p)" by blast
  have u: "upstream_ok (pstep st1 st2 a p)"
    using Cons.prems by (rule upstream_step)
  from Cons.IH [OF Cons.prems(1) u]
  obtain bs where 2: "second st1 (prun st1 st2 ps (pstep st1 st2 a p))
      = run st2 bs (second st1 (pstep st1 st2 a p))" by blast
  show ?case
    by (intro exI [of _ "as @ bs"]) (simp add: 1 2 run_append)
qed


lemma second_consistent:
  assumes "quiet st1" and "upstream_ok p" and "consistent (second st1 p)"
  shows "consistent (second st1 (prun st1 st2 ps p))"
proof -
  from second_run [OF assms(1,2), of st2 ps]
  obtain as where "second st1 (prun st1 st2 ps p) = run st2 as (second st1 p)" by blast
  then show ?thesis
    using assms(3) by (simp add: consistent_run)
qed

lemma second_live:
  assumes "quiet st1" and "upstream_ok p" and "consistent (second st1 p)"
    and "live st2 (second st1 p)"
  shows "live st2 (second st1 (prun st1 st2 ps p))"
proof -
  from second_run [OF assms(1,2), of st2 ps]
  obtain as where "second st1 (prun st1 st2 ps p) = run st2 as (second st1 p)" by blast
  then show ?thesis
    using assms(3,4) by (simp add: live_run)
qed

lemma second_complete:
  assumes "quiet st1" and "upstream_ok p" and "consistent (second st1 p)"
    and "complete (second st1 p)"
  shows "complete (second st1 (prun st1 st2 ps p))"
proof -
  from second_run [OF assms(1,2), of st2 ps]
  obtain as where "second st1 (prun st1 st2 ps p) = run st2 as (second st1 p)" by blast
  then show ?thesis
    using assms(3,4) by (simp add: complete_run)
qed

lemma upstream_run:
  "quiet st1 \<Longrightarrow> upstream_ok p \<Longrightarrow> upstream_ok (prun st1 st2 ps p)"
  by (induction ps arbitrary: p) (simp_all add: upstream_step)

lemma pidle_producer: "\<not> penabled_producer p \<Longrightarrow> pproducer_step st1 p = p"
  by (auto simp: penabled_producer_def pproducer_step_def chan_send_def chan_close_def
      split: list.splits)

lemma pidle_stage1: "\<not> penabled_stage1 p \<Longrightarrow> pstage1_step st1 st2 p = p"
  by (auto simp: penabled_stage1_def can_send_def pstage1_step_def chan_send_def send_stmt_def
      split: pc.splits option.splits)

lemma pidle_stage2: "\<not> penabled_stage2 p \<Longrightarrow> pstage2_step st2 p = p"
  by (auto simp: penabled_stage2_def can_send_def pstage2_step_def chan_send_def send_stmt_def
      split: pc.splits option.splits)

lemma pidle_consumer: "\<not> penabled_consumer p \<Longrightarrow> pconsumer_step p = p"
  by (auto simp: penabled_consumer_def can_recv_def pconsumer_step_def chan_recv_def
      split: list.splits)

lemma pidle_observer: "\<not> penabled_observer p \<Longrightarrow> pobserver_step p = p"
  by (auto simp: penabled_observer_def can_recv_def pobserver_step_def chan_recv_def
      split: list.splits option.splits)

lemma pidle_step: "\<not> penabled a p \<Longrightarrow> pstep st1 st2 a p = p"
  by (cases a) (simp_all add: pidle_producer pidle_stage1 pidle_stage2 pidle_consumer pidle_observer)

lemma pcw1_after_body: "pcw1 (after_body a) \<le> 9"
  by (cases a) (simp_all add: after_body_def)

lemma upstream_potential_producer:
  "penabled_producer p \<Longrightarrow> upstream_potential (pproducer_step st1 p) < upstream_potential p"
  using pcw1_after_body [of "body st1 (hd (pending1 p))"]
  by (cases "pc1 p")
     (auto simp: penabled_producer_def upstream_potential_def pproducer_step_def chan_send_def
        chan_close_def split: list.splits option.splits)

lemma upstream_potential_stage1:
  "upstream_ok p \<Longrightarrow> penabled_stage1 p \<Longrightarrow>
     upstream_potential (pstage1_step st1 st2 p) < upstream_potential p"
  using pcw1_after_body [of "body st1 (hd (buf (inC1 p)))"]
  by (cases "pc1 p")
     (auto simp: upstream_ok_def penabled_stage1_def can_send_def upstream_potential_def
        pstage1_step_def chan_send_def chan_recv_def chan_park_def chan_close_def
        split: list.splits option.splits)

lemma upstream_potential_stage2: "upstream_potential (pstage2_step st2 p) = upstream_potential p"
  by (cases "pc2 p")
     (auto simp: upstream_potential_def pstage2_step_def chan_send_def chan_recv_def
        chan_park_def chan_close_def send_stmt_def split: list.splits option.splits)

lemma upstream_potential_consumer: "upstream_potential (pconsumer_step p) = upstream_potential p"
  by (auto simp: upstream_potential_def pconsumer_step_def chan_recv_def chan_park_def
        split: list.splits)

lemma upstream_potential_observer: "upstream_potential (pobserver_step p) = upstream_potential p"
  by (auto simp: upstream_potential_def pobserver_step_def chan_recv_def chan_park_def
        split: list.splits option.splits)

lemma ppotential_less:
  assumes u: "upstream_ok p" and en: "penabled a p"
  shows "ppotential st1 (pstep st1 st2 a p) < ppotential st1 p"
proof (cases a)
  case PProducer
  with en have "upstream_potential (pproducer_step st1 p) < upstream_potential p"
    by (simp add: upstream_potential_producer)
  with PProducer show ?thesis
    by (simp add: ppotential_def second_producer [OF u])
next
  case PStage1
  with en have 1: "upstream_potential (pstage1_step st1 st2 p) < upstream_potential p"
    using u by (simp add: upstream_potential_stage1)
  have "potential (second st1 (pstage1_step st1 st2 p)) \<le> potential (second st1 p)"
    using second_stage1 [OF u, of st1 st2] potential_step [of st2 Producer "second st1 p"]
    by auto
  with 1 PStage1 show ?thesis
    by (simp add: ppotential_def)
next
  case PStage2
  with en have "enabled_stage (second st1 p)"
    by (cases "pc2 p") (simp_all add: penabled_stage2_def enabled_stage_def second_def)
  then have "potential (stage_step st2 (second st1 p)) < potential (second st1 p)"
    by (rule potential_stage)
  with PStage2 show ?thesis
    by (simp add: ppotential_def second_stage2 upstream_potential_stage2)
next
  case PConsumer
  with en have "enabled_consumer (second st1 p)"
    by (simp add: penabled_consumer_def enabled_consumer_def second_def)
  then have "potential (consumer_step (second st1 p)) < potential (second st1 p)"
    by (rule potential_consumer)
  with PConsumer show ?thesis
    by (simp add: ppotential_def second_consumer upstream_potential_consumer)
next
  case PObserver
  with en have "enabled_observer (second st1 p)"
    by (simp add: penabled_observer_def enabled_observer_def second_def)
  then have "potential (observer_step (second st1 p)) < potential (second st1 p)"
    by (rule potential_observer)
  with PObserver show ?thesis
    by (simp add: ppotential_def second_observer upstream_potential_observer)
qed

lemma ppotential_step:
  "upstream_ok p \<Longrightarrow> ppotential st1 (pstep st1 st2 a p) \<le> ppotential st1 p"
  using pidle_step [of a p st1 st2] ppotential_less [of p a st1 st2]
  by (cases "penabled a p") simp_all

lemma ppotential_run:
  "quiet st1 \<Longrightarrow> upstream_ok p \<Longrightarrow> ppotential st1 (prun st1 st2 as p) \<le> ppotential st1 p"
proof (induction as arbitrary: p)
  case Nil
  then show ?case by simp
next
  case (Cons a as)
  have "ppotential st1 (prun st1 st2 as (pstep st1 st2 a p)) \<le> ppotential st1 (pstep st1 st2 a p)"
    using Cons.prems by (intro Cons.IH upstream_step)
  also have "\<dots> \<le> ppotential st1 p"
    using Cons.prems(2) by (rule ppotential_step)
  finally show ?case by simp
qed

lemma pprogress:
  "upstream_ok p \<Longrightarrow> consistent (second st1 p) \<Longrightarrow> live st2 (second st1 p) \<Longrightarrow>
   \<not> complete (second st1 p) \<Longrightarrow>
     penabled PProducer p \<or> penabled PStage1 p \<or> penabled PStage2 p \<or> penabled PConsumer p
     \<or> penabled PObserver p"
  by (cases "pc2 p"; cases "pc1 p")
     (auto simp: upstream_ok_def consistent_def live_def accepting_def complete_def second_def
        penabled_producer_def penabled_stage1_def penabled_stage2_def penabled_consumer_def
        penabled_observer_def can_send_def can_recv_def split: option.splits)


lemma psweep:
  "quiet st1 \<Longrightarrow> upstream_ok p \<Longrightarrow> \<exists>a \<in> set as. penabled a p \<Longrightarrow>
     ppotential st1 (prun st1 st2 as p) < ppotential st1 p"
proof (induction as arbitrary: p)
  case Nil
  then show ?case by simp
next
  case (Cons a as)
  show ?case
  proof (cases "penabled a p")
    case True
    have "ppotential st1 (prun st1 st2 as (pstep st1 st2 a p)) \<le> ppotential st1 (pstep st1 st2 a p)"
      using Cons.prems(1,2) by (intro ppotential_run upstream_step)
    also have "\<dots> < ppotential st1 p"
      using Cons.prems(2) True by (rule ppotential_less)
    finally show ?thesis by simp
  next
    case False
    then have "pstep st1 st2 a p = p"
      by (rule pidle_step)
    moreover have "\<exists>b \<in> set as. penabled b p"
      using Cons.prems(3) False by auto
    ultimately show ?thesis
      using Cons.IH [OF Cons.prems(1,2)] by simp
  qed
qed

lemma pdrain_completes:
  assumes q: "quiet st1"
  shows "upstream_ok p \<Longrightarrow> consistent (second st1 p) \<Longrightarrow> live st2 (second st1 p) \<Longrightarrow>
     ppotential st1 p \<le> n \<Longrightarrow> complete (second st1 (prun st1 st2 (pdrain n) p))"
proof (induction n arbitrary: p)
  case 0
  show ?case
  proof (rule ccontr)
    assume "\<not> complete (second st1 (prun st1 st2 (pdrain 0) p))"
    then have "\<not> complete (second st1 p)" by simp
    from pprogress [OF "0.prems"(1,2,3) this]
    have "\<exists>a \<in> set [PProducer, PStage1, PStage2, PConsumer, PObserver]. penabled a p"
      by auto
    from psweep [OF q "0.prems"(1) this, of st2] "0.prems"(4) show False by simp
  qed
next
  case (Suc n)
  let ?r = "prun st1 st2 [PProducer, PStage1, PStage2, PConsumer, PObserver] p"
  have run: "prun st1 st2 (pdrain (Suc n)) p = prun st1 st2 (pdrain n) ?r"
    by simp
  have u: "upstream_ok ?r"
    using q Suc.prems(1) by (rule upstream_run)
  have c: "consistent (second st1 ?r)"
    using q Suc.prems(1,2) by (rule second_consistent)
  have l: "live st2 (second st1 ?r)"
    using q Suc.prems(1,2,3) by (rule second_live)
  show ?case
  proof (cases "complete (second st1 p)")
    case True
    have "complete (second st1 ?r)"
      using q Suc.prems(1,2) True by (rule second_complete)
    with q u c have "complete (second st1 (prun st1 st2 (pdrain n) ?r))"
      by (rule second_complete)
    with run show ?thesis by simp
  next
    case False
    from pprogress [OF Suc.prems(1,2,3) False]
    have "\<exists>a \<in> set [PProducer, PStage1, PStage2, PConsumer, PObserver]. penabled a p"
      by auto
    from psweep [OF q Suc.prems(1) this, of st2] Suc.prems(4)
    have "ppotential st1 ?r \<le> n" by linarith
    from Suc.IH [OF u c l this] run show ?thesis by simp
  qed
qed

lemma prun_append: "prun st1 st2 (as @ bs) p = prun st1 st2 bs (prun st1 st2 as p)"
  by (induction as arbitrary: p) simp_all

lemma length_outs: "length (outs b xs) \<le> length xs"
  by (induction xs) (auto split: act.splits)

lemma ppotential_start:
  "ppotential st1 (pstart st1 st2 n xs e) \<le> 16 * length xs + 14 + backlog e"
proof -
  have "upstream_potential (pstart st1 st2 n xs e) = 10 * length xs + 6"
    by (simp add: upstream_potential_def pstart_def make_chan_def)
  moreover have "potential (second st1 (pstart st1 st2 n xs e))
      \<le> 6 * length (outs (body st1) xs) + 8 + backlog e"
    unfolding second_start by (rule potential_start)
  moreover have "length (outs (body st1) xs) \<le> length xs"
    by (rule length_outs)
  ultimately show ?thesis
    unfolding ppotential_def by linarith
qed

lemma prun_second:
  assumes "quiet st1"
  shows "\<exists>as. second st1 (prun st1 st2 ps (pstart st1 st2 n xs e))
           = run st2 as (start st2 (out_cap st1) (outs (body st1) xs) e)"
proof -
  have "\<exists>as. second st1 (prun st1 st2 ps (pstart st1 st2 n xs e))
           = run st2 as (second st1 (pstart st1 st2 n xs e))"
    using assms upstream_start by (rule second_run)
  then show ?thesis
    by (simp add: second_start)
qed

lemma prun_exited:
  assumes q: "quiet st1" and P: "P = prun st1 st2 ps (pstart st1 st2 n xs e)"
    and ex: "pc2 P = Exited"
  shows "received2 P @ buf (outC2 P) = outs (body st2) (outs (body st1) xs)"
    and "emitted2 P = evts (body st2) (outs (body st1) xs)"
    and "closed (outC2 P)"
proof -
  from prun_second [OF q, of st2 ps n xs e] obtain as
    where s: "second st1 P = run st2 as (start st2 (out_cap st1) (outs (body st1) xs) e)"
    unfolding P by blast
  have e2: "pc (second st1 P) = Exited"
    using ex by (simp add: second_def)
  from run_exited_out [OF s e2]
  show "received2 P @ buf (outC2 P) = outs (body st2) (outs (body st1) xs)"
    by (simp add: second_def)
  from run_exited_ev [OF s e2]
  show "emitted2 P = evts (body st2) (outs (body st1) xs)"
    by (simp add: second_def)
  from run_exit(1) [OF s] e2 show "closed (outC2 P)"
    by (simp add: second_def)
qed

lemma prun_finishes:
  assumes q: "quiet st1"
    and ok: "accepting e \<or> evts (body st2) (outs (body st1) xs) = []"
    and k: "16 * length xs + 14 + backlog e \<le> k"
    and P: "P = prun st1 st2 (ps @ pdrain k) (pstart st1 st2 n xs e)"
  shows "pc2 P = Exited \<and> buf (outC2 P) = []"
proof -
  let ?m = "prun st1 st2 ps (pstart st1 st2 n xs e)"
  have u: "upstream_ok ?m"
    using q upstream_start by (rule upstream_run)
  have c0: "consistent (second st1 (pstart st1 st2 n xs e))"
    by (simp add: second_start consistent_start)
  have l0: "live st2 (second st1 (pstart st1 st2 n xs e))"
    using ok by (simp add: second_start live_start)
  have c: "consistent (second st1 ?m)"
    using q upstream_start c0 by (rule second_consistent)
  have l: "live st2 (second st1 ?m)"
    using q upstream_start c0 l0 by (rule second_live)
  have "ppotential st1 ?m \<le> ppotential st1 (pstart st1 st2 n xs e)"
    using q upstream_start by (rule ppotential_run)
  also have "\<dots> \<le> k"
    using ppotential_start [of st1 st2 n xs e] k by linarith
  finally have "complete (second st1 (prun st1 st2 (pdrain k) ?m))"
    using q u c l by (intro pdrain_completes)
  then show ?thesis
    by (simp add: P prun_append complete_def second_def)
qed

lemma quiet_Filter: "quiet (Filter_Transform f)"
  by (simp add: quiet_def Filter_Transform_def)

subsection \<open>Logger and EventCollector\<close>

lemma Logger_Load_events:
  "EmitEvent e \<in> set (Logger_Load M S st xs) \<Longrightarrow> e = NewErrorEvent ''formatted data is empty'' None True"
  by (induction xs arbitrary: st) (auto simp: Let_def split: prod.splits if_splits)


lemma apply_option_bufferSize:
  "0 < bufferSize c \<Longrightarrow> 0 < bufferSize (apply_option opt c)"
  by (cases opt) (auto split: option.splits)

lemma apply_option_closed:
  "\<not> isOpen c \<Longrightarrow> \<not> isOpen (apply_option opt c)"
  by (cases opt) (auto split: option.splits)

lemma apply_option_wg:
  "wg (apply_option opt c) = wg c"
  by (cases opt) (auto split: option.splits)

lemma foldl_options:
  "0 < bufferSize c \<Longrightarrow> \<not> isOpen c \<Longrightarrow>
     0 < bufferSize (foldl (\<lambda>c opt. apply_option opt c) c opts)
     \<and> \<not> isOpen (foldl (\<lambda>c opt. apply_option opt c) c opts)
     \<and> wg (foldl (\<lambda>c opt. apply_option opt c) c opts) = wg c"
  by (induction opts arbitrary: c)
    (simp_all add: apply_option_bufferSize apply_option_closed apply_option_wg)

lemma collector_ok_fresh: "collector_ok (fresh opts)"
  using foldl_options [of "\<lparr>bufferSize = 100, workers = 1, callbacks = [], typedCallbacks = [],
        wg = 0, eventChan = None, isOpen = False\<rparr>" opts]
  by (simp add: collector_ok_def fresh_def NewEventCollector_def)

lemma EventCollector_Collect_while_open:
  "isOpen (collector w) \<Longrightarrow> EventCollector_Collect lim w = Returns (eventChan (collector w), w)"
  by (simp add: EventCollector_Collect_def eval_nat_numeral)

lemma EventCollector_Collect_beyond_limit:
  "\<not> isOpen (collector w) \<Longrightarrow> int lim < bufferSize (collector w) \<Longrightarrow>
     EventCollector_Collect lim w = Panics MakechanSizeOutOfRange"
  by (simp add: EventCollector_Collect_def eval_nat_numeral makechan_def)

lemma collector_ok_Collect:
  assumes "collector_ok w" and "bufferSize (collector w) \<le> int lim"
  shows "\<exists>h w'. EventCollector_Collect lim w = Returns (h, w') \<and> collector_ok w'
           \<and> isOpen (collector w') \<and> bufferSize (collector w') = bufferSize (collector w)"
proof (cases "isOpen (collector w)")
  case True
  with assms show ?thesis
    by (simp add: EventCollector_Collect_while_open)
next
  case False
  with assms show ?thesis
    by (simp add: collector_ok_def EventCollector_Collect_def eval_nat_numeral makechan_def
        make_chan_def list_all_iff)
qed

lemma collector_ok_Close:
  assumes "collector_ok w"
  shows "\<exists>w'. EventCollector_Close w = Returns w' \<and> collector_ok w' \<and> \<not> isOpen (collector w')
           \<and> bufferSize (collector w') = bufferSize (collector w)"
proof (cases "isOpen (collector w)")
  case False
  with assms show ?thesis
    by (simp add: EventCollector_Close_def Let_def)
next
  case True
  with assms obtain hs ch where h: "heap w = hs @ [ch]" "list_all closed hs" "\<not> closed ch"
    "eventChan (collector w) = Some (length hs)" "list_all (\<lambda>b. b = length hs) (serving w)"
    and b: "0 < bufferSize (collector w)" and g: "wg (collector w) = int (length (serving w))"
    by (auto simp: collector_ok_def)
  have f: "filter (\<lambda>b. b = length hs) (serving w) = serving w"
    "filter (\<lambda>b. b \<noteq> length hs) (serving w) = []"
    using h(5) by (simp_all add: list_all_iff filter_empty_conv)
  show ?thesis
    using True h(1-4) b g
    by (simp add: EventCollector_Close_def Let_def chan_close_def collector_ok_def f)
qed

lemma live_streams_ok:
  "collector_ok w \<Longrightarrow> live_streams w = (if isOpen (collector w) then 1 else 0)"
  by (auto simp: collector_ok_def live_streams_def list_all_iff filter_empty_conv split: if_splits)

lemma calls_ok:
  "collector_ok w \<Longrightarrow> bufferSize (collector w) \<le> int lim \<Longrightarrow>
     \<exists>w'. calls lim cs w = Returns w' \<and> collector_ok w'"
proof (induction cs arbitrary: w)
  case Nil
  then show ?case by simp
next
  case (Cons c cs)
  show ?case
  proof (cases c)
    case CallCollect
    from collector_ok_Collect [OF Cons.prems] obtain h w1
      where "EventCollector_Collect lim w = Returns (h, w1)" "collector_ok w1"
        "bufferSize (collector w1) = bufferSize (collector w)" by blast
    with Cons.IH [of w1] Cons.prems(2) CallCollect show ?thesis by simp
  next
    case CallClose
    from collector_ok_Close [OF Cons.prems(1)] obtain w1
      where "EventCollector_Close w = Returns w1" "collector_ok w1"
        "bufferSize (collector w1) = bufferSize (collector w)" by blast
    with Cons.IH [of w1] Cons.prems(2) CallClose show ?thesis by simp
  qed
qed

lemma calls_beyond_limit:
  "collector_ok w \<Longrightarrow> int lim < bufferSize (collector w) \<Longrightarrow>
     (case calls lim cs w of
        Returns w' \<Rightarrow> collector_ok w'
      | Blocks \<Rightarrow> False
      | Panics p \<Rightarrow> p = MakechanSizeOutOfRange)"
proof (induction cs arbitrary: w)
  case Nil
  then show ?case by simp
next
  case (Cons c cs)
  show ?case
  proof (cases c)
    case CallCollect
    show ?thesis
    proof (cases "isOpen (collector w)")
      case True
      with Cons.IH [of w] Cons.prems CallCollect show ?thesis
        by (simp add: EventCollector_Collect_while_open)
    next
      case False
      with Cons.prems CallCollect show ?thesis
        by (simp add: EventCollector_Collect_beyond_limit)
    qed
  next
    case CallClose
    from collector_ok_Close [OF Cons.prems(1)] obtain w1
      where "EventCollector_Close w = Returns w1" "collector_ok w1"
        "bufferSize (collector w1) = bufferSize (collector w)" by blast
    with Cons.IH [of w1] Cons.prems(2) CallClose show ?thesis by simp
  qed
qed

text \<open>
  Calls made one after another: no call blocks; the only panic is that of \<^verbatim>\<open>make\<close>, for a
  buffer size above the limit; and every state reached has at most one open channel,
  which \<^verbatim>\<open>Collect\<close> returns while the collector is open.
\<close>

lemma serial_calls_single_live_stream:
  "(bufferSize (NewEventCollector opts) \<le> int lim \<longrightarrow>
      (\<exists>w. calls lim cs (fresh opts) = Returns w))
   \<and> calls lim cs (fresh opts) \<noteq> Blocks
   \<and> (calls lim cs (fresh opts) = Panics p \<longrightarrow>
        p = MakechanSizeOutOfRange \<and> int lim < bufferSize (NewEventCollector opts))
   \<and> (calls lim cs (fresh opts) = Returns w \<longrightarrow>
        live_streams w \<le> 1
        \<and> live_streams w = (if isOpen (collector w) then 1 else 0)
        \<and> (isOpen (collector w) \<longrightarrow>
             EventCollector_Collect lim w = Returns (eventChan (collector w), w)
             \<and> (\<exists>a. eventChan (collector w) = Some a \<and> a < length (heap w)
                    \<and> \<not> closed (heap w ! a))))"
proof (cases "bufferSize (NewEventCollector opts) \<le> int lim")
  case True
  then have b: "bufferSize (collector (fresh opts)) \<le> int lim" by (simp add: fresh_def)
  from calls_ok [OF collector_ok_fresh b, of cs]
  obtain w' where w': "calls lim cs (fresh opts) = Returns w'" "collector_ok w'" by blast
  have "collector_ok w \<Longrightarrow> isOpen (collector w) \<Longrightarrow>
      (\<exists>a. eventChan (collector w) = Some a \<and> a < length (heap w) \<and> \<not> closed (heap w ! a))"
    by (auto simp: collector_ok_def)
  with w' True show ?thesis
    by (auto simp: live_streams_ok EventCollector_Collect_while_open)
next
  case False
  then have b: "int lim < bufferSize (collector (fresh opts))" by (simp add: fresh_def)
  have o: "collector_ok w \<Longrightarrow> isOpen (collector w) \<Longrightarrow>
      (\<exists>a. eventChan (collector w) = Some a \<and> a < length (heap w) \<and> \<not> closed (heap w ! a))"
    by (auto simp: collector_ok_def)
  from calls_beyond_limit [OF collector_ok_fresh b, of cs] False o show ?thesis
    by (auto simp: live_streams_ok EventCollector_Collect_while_open split: outcome.splits)
qed


section \<open>The claims\<close>

text \<open>
  C1 (amended). Passthrough, and Buffer(k) for every \<open>k > 0\<close> that \<^verbatim>\<open>make\<close> accepts as a
  channel capacity (\<open>k\<close> not above the limit \<open>lim\<close> of the run time for the item type),
  deliver exactly the input sequence: whatever the timing of producer, stage, consumer
  and observer, the consumer has received a prefix of the input, and received, queued,
  in-flight and not yet read items together are the input in order (nothing dropped,
  duplicated or reordered); the output is closed only after the input was closed and
  drained; and once every party has had enough turns the output is closed and the
  consumer holds the whole input, same items, order and count. For a size above the
  limit \<^verbatim>\<open>Buffer.Transform\<close> panics in \<^verbatim>\<open>make\<close> and returns no output stream.
\<close>

theorem Buffer_Passthrough_forward_everything:
  "0 < k \<Longrightarrow> k \<le> int lim \<Longrightarrow>
   Buffer_Transform lim (NewBuffer k) = Inr (Buffer_loop (nat k) :: ('i, 'i) stage)
   \<and> (int lim < big \<longrightarrow>
        Buffer_Transform lim (NewBuffer big) = (Inl MakechanSizeOutOfRange :: panic + ('i, 'i) stage))
   \<and> out_cap (Buffer_loop (nat k) :: ('i, 'i) stage) = nat k
   \<and> (\<forall>st \<in> {Buffer_loop (nat k), Passthrough_Transform :: ('i, 'i) stage}.
        (let s = run st sched (start st n xs e) in
           prefix (received s) xs
           \<and> received s @ buf (outC s) @ pc_out (pc s) @ buf (inC s) @ pending s = xs
           \<and> (closed (outC s) \<longrightarrow>
                pc s = Exited \<and> closed (inC s) \<and> buf (inC s) = [] \<and> pending s = []
                \<and> received s @ buf (outC s) = xs)
           \<and> emitted s = [])
        \<and> (6 * length xs + 8 + backlog e \<le> m \<longrightarrow>
            (let s = run st (sched @ drain m) (start st n xs e) in
               closed (outC s) \<and> buf (outC s) = [] \<and> received s = xs
               \<and> length (received s) = length xs)))"
proof -
  assume k: "0 < k" "k \<le> int lim"
  have B: "body (Buffer_loop (nat k) :: ('i, 'i) stage) = (\<lambda>v. Forward v)"
    by (simp add: Buffer_loop_def)
  have P: "body (Passthrough_Transform :: ('i, 'i) stage) = (\<lambda>v. Forward v)"
    by (simp add: Passthrough_Transform_def)
  have T: "Buffer_Transform lim (NewBuffer k) = Inr (Buffer_loop (nat k) :: ('i, 'i) stage)"
    using k by (simp add: Buffer_Transform_def NewBuffer_def makechan_def make_chan_def)
  have H: "int lim < big \<longrightarrow>
        Buffer_Transform lim (NewBuffer big) = (Inl MakechanSizeOutOfRange :: panic + ('i, 'i) stage)"
    by (simp add: Buffer_Transform_def NewBuffer_def makechan_def)
  have C: "out_cap (Buffer_loop (nat k) :: ('i, 'i) stage) = nat k"
    by (simp add: Buffer_loop_def)
  show ?thesis
    using T H C forwarding_stage [OF B, of sched n xs e m] forwarding_stage [OF P, of sched n xs e m]
    by simp
qed

theorem Buffer_Passthrough_forward_everything_witness:
  "(0 :: int) < 2 \<and> 2 \<le> int (2 ^ 48)
   \<and> Buffer_Transform (2 ^ 48) (NewBuffer 2) = Inr (Buffer_loop 2 :: (nat, nat) stage)
   \<and> int (2 ^ 48) < 2 ^ 62
   \<and> Buffer_Transform (2 ^ 48) (NewBuffer (2 ^ 62)) = (Inl MakechanSizeOutOfRange :: panic + (nat, nat) stage)
   \<and> 6 * length [1, 2, 3 :: nat] + 8 + backlog None \<le> 26
   \<and> (let s = run (Buffer_loop 2) (drain 26) (start (Buffer_loop 2) 0 [1, 2, 3 :: nat] None)
       in closed (outC s) \<and> pc s = Exited \<and> closed (inC s) \<and> buf (inC s) = []
          \<and> pending s = [] \<and> buf (outC s) = [] \<and> received s = [1, 2, 3])
   \<and> (let s = run Passthrough_Transform (drain 26)
                 (start Passthrough_Transform 0 [1, 2, 3 :: nat] None)
       in closed (outC s) \<and> pc s = Exited \<and> closed (inC s) \<and> buf (inC s) = []
          \<and> pending s = [] \<and> buf (outC s) = [] \<and> received s = [1, 2, 3])"
  using Buffer_Passthrough_forward_everything
      [where k = 2 and lim = "2 ^ 48" and big = "2 ^ 62" and sched = "[]" and n = 0
         and xs = "[1, 2, 3 :: nat]" and e = None and m = 26]
    Buffer_Passthrough_forward_everything
      [where k = 2 and lim = "2 ^ 48" and big = "2 ^ 62" and sched = "drain 26" and n = 0
         and xs = "[1, 2, 3 :: nat]" and e = None and m = 26]
  by (simp add: Let_def backlog_def)

text \<open>
  The claim as stated takes every \<open>k > 0\<close>. No 64-bit run time allocates more than \<open>2 ^ 48\<close>
  bytes, so for an item type of at least one byte the limit is at most \<open>2 ^ 48\<close>; with
  \<open>k = 2 ^ 62\<close>, a value of Go's \<^verbatim>\<open>int\<close>, \<^verbatim>\<open>NewBuffer(k).Transform\<close> panics and forwards
  nothing.
\<close>

theorem Buffer_capacity_beyond_limit_counterexample:
  "(0 :: int) < 2 ^ 62
   \<and> size' (NewBuffer (2 ^ 62)) = 2 ^ 62
   \<and> Buffer_Transform (2 ^ 48) (NewBuffer (2 ^ 62))
       = (Inl MakechanSizeOutOfRange :: panic + (nat, nat) stage)"
  by (simp add: Buffer_Transform_def NewBuffer_def makechan_def)

text \<open>
  C2 (amended). Map(f) forwards exactly the images of the items on which \<open>f\<close> returns no
  error, in input order, and for each item on which \<open>f\<close> fails sends one ErrorEvent with
  message "map transform error", the error as cause and temporary = true, then goes on
  with the next item, provided the event stream takes the report: it exists, is not
  closed and is read. FilterMap does the same for the items that pass its predicate, with
  message "filtermap error transforming data". For every schedule the delivered items are
  a prefix of these images, and the sent events a prefix of these reports unless the send
  panicked; both are complete when the stage has returned; and the stage does return,
  given enough turns of every party, the reader of the event stream among them, when the
  event stream exists and is not closed. What the stage does when the event stream does
  not take a report is the subject of C6.
\<close>

theorem Map_FilterMap_drop_failures:
  "(let s = run (Map_Transform m) sched (start (Map_Transform m) n xs e) in
      prefix (received s)
        (map (\<lambda>v. fst (transform m v)) (filter (\<lambda>v. snd (transform m v) = None) xs))
      \<and> (e = None \<or> accepting e \<longrightarrow> pc s \<noteq> Panicked)
      \<and> (pc s \<noteq> Panicked \<longrightarrow>
           prefix (emitted s)
             (map (\<lambda>v. EvError \<lparr>msg = ''map transform error'', err = snd (transform m v),
                                 temporary = True\<rparr>)
                (filter (\<lambda>v. snd (transform m v) \<noteq> None) xs)))
      \<and> (pc s = Exited \<longrightarrow>
           received s @ buf (outC s)
             = map (\<lambda>v. fst (transform m v)) (filter (\<lambda>v. snd (transform m v) = None) xs)
           \<and> emitted s
             = map (\<lambda>v. EvError \<lparr>msg = ''map transform error'', err = snd (transform m v),
                                 temporary = True\<rparr>)
                (filter (\<lambda>v. snd (transform m v) \<noteq> None) xs)
           \<and> length (emitted s) = length (filter (\<lambda>v. snd (transform m v) \<noteq> None) xs)))
   \<and> (accepting e \<and> 6 * length xs + 8 + backlog e \<le> k \<longrightarrow>
       (let s = run (Map_Transform m) (sched @ drain k) (start (Map_Transform m) n xs e) in
          pc s = Exited \<and> closed (outC s)
          \<and> received s
             = map (\<lambda>v. fst (transform m v)) (filter (\<lambda>v. snd (transform m v) = None) xs)
          \<and> emitted s
             = map (\<lambda>v. EvError \<lparr>msg = ''map transform error'', err = snd (transform m v),
                                 temporary = True\<rparr>)
                (filter (\<lambda>v. snd (transform m v) \<noteq> None) xs)
          \<and> length (emitted s) = length (filter (\<lambda>v. snd (transform m v) \<noteq> None) xs)))
   \<and> (let s = run (FilterMap_Transform fm) sched (start (FilterMap_Transform fm) n xs e) in
      prefix (received s)
        (map (\<lambda>v. fst (fm_transform fm v))
           (filter (\<lambda>v. snd (fm_transform fm v) = None) (filter (fm_predicate fm) xs)))
      \<and> (e = None \<or> accepting e \<longrightarrow> pc s \<noteq> Panicked)
      \<and> (pc s \<noteq> Panicked \<longrightarrow>
           prefix (emitted s)
             (map (\<lambda>v. EvError \<lparr>msg = ''filtermap error transforming data'',
                                 err = snd (fm_transform fm v), temporary = True\<rparr>)
                (filter (\<lambda>v. snd (fm_transform fm v) \<noteq> None) (filter (fm_predicate fm) xs))))
      \<and> (pc s = Exited \<longrightarrow>
           received s @ buf (outC s)
             = map (\<lambda>v. fst (fm_transform fm v))
                 (filter (\<lambda>v. snd (fm_transform fm v) = None) (filter (fm_predicate fm) xs))
           \<and> emitted s
             = map (\<lambda>v. EvError \<lparr>msg = ''filtermap error transforming data'',
                                 err = snd (fm_transform fm v), temporary = True\<rparr>)
                 (filter (\<lambda>v. snd (fm_transform fm v) \<noteq> None) (filter (fm_predicate fm) xs))
           \<and> length (emitted s)
             = length (filter (\<lambda>v. snd (fm_transform fm v) \<noteq> None) (filter (fm_predicate fm) xs))))
   \<and> (accepting e \<and> 6 * length xs + 8 + backlog e \<le> k \<longrightarrow>
       (let s = run (FilterMap_Transform fm) (sched @ drain k) (start (FilterMap_Transform fm) n xs e) in
          pc s = Exited \<and> closed (outC s)
          \<and> received s
             = map (\<lambda>v. fst (fm_transform fm v))
                 (filter (\<lambda>v. snd (fm_transform fm v) = None) (filter (fm_predicate fm) xs))
          \<and> emitted s
             = map (\<lambda>v. EvError \<lparr>msg = ''filtermap error transforming data'',
                                 err = snd (fm_transform fm v), temporary = True\<rparr>)
                 (filter (\<lambda>v. snd (fm_transform fm v) \<noteq> None) (filter (fm_predicate fm) xs))
          \<and> length (emitted s)
             = length (filter (\<lambda>v. snd (fm_transform fm v) \<noteq> None) (filter (fm_predicate fm) xs))))"
proof -
  have oM: "outs (body (Map_Transform m)) xs
      = map (\<lambda>v. fst (transform m v)) (filter (\<lambda>v. snd (transform m v) = None) xs)"
    by (rule outs_Map)
  have eM: "evts (body (Map_Transform m)) xs
      = map (\<lambda>v. EvError \<lparr>msg = ''map transform error'', err = snd (transform m v),
                                 temporary = True\<rparr>)
                (filter (\<lambda>v. snd (transform m v) \<noteq> None) xs)"
    by (simp add: evts_Map NewErrorEvent_def)
  have oF: "outs (body (FilterMap_Transform fm)) xs
      = map (\<lambda>v. fst (fm_transform fm v))
                 (filter (\<lambda>v. snd (fm_transform fm v) = None) (filter (fm_predicate fm) xs))"
    by (simp add: outs_FilterMap conj_commute)
  have eF: "evts (body (FilterMap_Transform fm)) xs
      = map (\<lambda>v. EvError \<lparr>msg = ''filtermap error transforming data'',
                                 err = snd (fm_transform fm v), temporary = True\<rparr>)
                 (filter (\<lambda>v. snd (fm_transform fm v) \<noteq> None) (filter (fm_predicate fm) xs))"
    by (simp add: evts_FilterMap NewErrorEvent_def conj_commute)
  have M: "(let s = run (Map_Transform m) sched (start (Map_Transform m) n xs e) in
      prefix (received s) (outs (body (Map_Transform m)) xs)
      \<and> (e = None \<or> accepting e \<longrightarrow> pc s \<noteq> Panicked)
      \<and> (pc s \<noteq> Panicked \<longrightarrow> prefix (emitted s) (evts (body (Map_Transform m)) xs))
      \<and> (pc s = Exited \<longrightarrow>
           received s @ buf (outC s) = outs (body (Map_Transform m)) xs
           \<and> emitted s = evts (body (Map_Transform m)) xs
           \<and> length (emitted s) = length (evts (body (Map_Transform m)) xs)))
   \<and> (accepting e \<and> 6 * length xs + 8 + backlog e \<le> k \<longrightarrow>
       (let s = run (Map_Transform m) (sched @ drain k) (start (Map_Transform m) n xs e) in
          pc s = Exited \<and> closed (outC s)
          \<and> received s = outs (body (Map_Transform m)) xs
          \<and> emitted s = evts (body (Map_Transform m)) xs
          \<and> length (emitted s) = length (evts (body (Map_Transform m)) xs)))"
    using reporting_stage [of "Map_Transform m" sched n xs e k]
    unfolding Let_def by metis
  have F: "(let s = run (FilterMap_Transform fm) sched (start (FilterMap_Transform fm) n xs e) in
      prefix (received s) (outs (body (FilterMap_Transform fm)) xs)
      \<and> (e = None \<or> accepting e \<longrightarrow> pc s \<noteq> Panicked)
      \<and> (pc s \<noteq> Panicked \<longrightarrow> prefix (emitted s) (evts (body (FilterMap_Transform fm)) xs))
      \<and> (pc s = Exited \<longrightarrow>
           received s @ buf (outC s) = outs (body (FilterMap_Transform fm)) xs
           \<and> emitted s = evts (body (FilterMap_Transform fm)) xs
           \<and> length (emitted s) = length (evts (body (FilterMap_Transform fm)) xs)))
   \<and> (accepting e \<and> 6 * length xs + 8 + backlog e \<le> k \<longrightarrow>
       (let s = run (FilterMap_Transform fm) (sched @ drain k) (start (FilterMap_Transform fm) n xs e) in
          pc s = Exited \<and> closed (outC s)
          \<and> received s = outs (body (FilterMap_Transform fm)) xs
          \<and> emitted s = evts (body (FilterMap_Transform fm)) xs
          \<and> length (emitted s) = length (evts (body (FilterMap_Transform fm)) xs)))"
    using reporting_stage [of "FilterMap_Transform fm" sched n xs e k]
    unfolding Let_def by metis
  have lM: "length (evts (body (Map_Transform m)) xs)
      = length (filter (\<lambda>v. snd (transform m v) \<noteq> None) xs)"
    by (simp add: eM)
  have lF: "length (evts (body (FilterMap_Transform fm)) xs)
      = length (filter (\<lambda>v. snd (fm_transform fm v) \<noteq> None) (filter (fm_predicate fm) xs))"
    by (simp add: eF)
  show ?thesis
    using M F unfolding lM lF unfolding oM eM oF eF by blast
qed


theorem Map_FilterMap_drop_failures_witness:
  "accepting (Some (make_chan 0 :: Event chan))
   \<and> 6 * length [1, 2, 3, 4 :: nat] + 8 + backlog (Some (make_chan 0 :: Event chan)) \<le> 32
   \<and> (let s = run (Map_Transform \<lparr>transform = (\<lambda>v. if v = 3 then (0, Some (errors_New ''odd'')) else (10 * v, None))\<rparr>)
                 (drain 32)
                 (start (Map_Transform \<lparr>transform = (\<lambda>v. if v = 3 then (0, Some (errors_New ''odd'')) else (10 * v, None))\<rparr>)
                    0 [1, 2, 3, 4 :: nat] (Some (make_chan 0)))
       in pc s = Exited \<and> pc s \<noteq> Panicked \<and> closed (outC s)
          \<and> received s @ buf (outC s) = [10, 20, 40 :: nat]
          \<and> received s = [10, 20, 40 :: nat]
          \<and> emitted s = [EvError \<lparr>msg = ''map transform error'', err = Some (errors_New ''odd''),
                                     temporary = True\<rparr>]
          \<and> length (emitted s) = 1)
   \<and> (let s = run (FilterMap_Transform \<lparr>fm_predicate = (\<lambda>v. 1 < v), fm_transform = (\<lambda>v. if v = 3 then (0, Some (errors_New ''odd'')) else (10 * v, None))\<rparr>)
                 (drain 32)
                 (start (FilterMap_Transform \<lparr>fm_predicate = (\<lambda>v. 1 < v), fm_transform = (\<lambda>v. if v = 3 then (0, Some (errors_New ''odd'')) else (10 * v, None))\<rparr>)
                    0 [1, 2, 3, 4 :: nat] (Some (make_chan 0)))
       in pc s = Exited \<and> pc s \<noteq> Panicked \<and> closed (outC s)
          \<and> received s @ buf (outC s) = [20, 40 :: nat]
          \<and> received s = [20, 40 :: nat]
          \<and> emitted s = [EvError \<lparr>msg = ''filtermap error transforming data'',
                                     err = Some (errors_New ''odd''), temporary = True\<rparr>]
          \<and> length (emitted s) = 1)"
  using Map_FilterMap_drop_failures
    [of "\<lparr>transform = (\<lambda>v. if v = 3 then (0, Some (errors_New ''odd'')) else (10 * v, None))\<rparr>"
        "[]" 0 "[1, 2, 3, 4 :: nat]" "Some (make_chan 0)" 32
        "\<lparr>fm_predicate = (\<lambda>v. 1 < v), fm_transform = (\<lambda>v. if v = 3 then (0, Some (errors_New ''odd'')) else (10 * v, None))\<rparr>"]
    Map_FilterMap_drop_failures
    [of "\<lparr>transform = (\<lambda>v. if v = 3 then (0, Some (errors_New ''odd'')) else (10 * v, None))\<rparr>"
        "drain 32" 0 "[1, 2, 3, 4 :: nat]" "Some (make_chan 0)" 32
        "\<lparr>fm_predicate = (\<lambda>v. 1 < v), fm_transform = (\<lambda>v. if v = 3 then (0, Some (errors_New ''odd'')) else (10 * v, None))\<rparr>"]
  by (simp add: Let_def backlog_def accepting_def make_chan_def)

text \<open>
  The claim as stated holds for every event stream. With no event stream (a nil handle),
  a transform that fails on 1 and the input 1, 2, the claim gives the output 2 and one
  ErrorEvent; after 28 rounds in which every party had its turn the stage still stands at
  the send of the report, nothing has been delivered, no event has been sent and the
  output is not closed.
\<close>

theorem Map_absent_event_stream_counterexample:
  "map (\<lambda>v. fst (transform \<lparr>transform = (\<lambda>v. if v = 1 then (0, Some (errors_New ''bad item'')) else (v, None))\<rparr> v))
       (filter (\<lambda>v. snd (transform \<lparr>transform = (\<lambda>v. if v = 1 then (0, Some (errors_New ''bad item'')) else (v, None))\<rparr> v) = None)
          [1, 2 :: nat]) = [2 :: nat]
   \<and> length (filter (\<lambda>v. snd (transform \<lparr>transform = (\<lambda>v. if v = 1 then (0 :: nat, Some (errors_New ''bad item'')) else (v, None))\<rparr> v) \<noteq> None)
          [1, 2 :: nat]) = 1
   \<and> received (run (Map_Transform \<lparr>transform = (\<lambda>v. if v = 1 then (0, Some (errors_New ''bad item'')) else (v, None))\<rparr>)
              (drain 28)
              (start (Map_Transform \<lparr>transform = (\<lambda>v. if v = 1 then (0, Some (errors_New ''bad item'')) else (v, None))\<rparr>)
                 0 [1, 2 :: nat] None)) = ([] :: nat list)
   \<and> emitted (run (Map_Transform \<lparr>transform = (\<lambda>v. if v = 1 then (0, Some (errors_New ''bad item'')) else (v, None))\<rparr>)
              (drain 28)
              (start (Map_Transform \<lparr>transform = (\<lambda>v. if v = 1 then (0, Some (errors_New ''bad item'')) else (v, None))\<rparr>)
                 0 [1, 2 :: nat] None) :: (nat, nat) sys) = []
   \<and> pc (run (Map_Transform \<lparr>transform = (\<lambda>v. if v = 1 then (0, Some (errors_New ''bad item'')) else (v, None))\<rparr>)
              (drain 28)
              (start (Map_Transform \<lparr>transform = (\<lambda>v. if v = 1 then (0, Some (errors_New ''bad item'')) else (v, None))\<rparr>)
                 0 [1, 2 :: nat] None) :: (nat, nat) sys)
       = SendEv (NewErrorEvent ''map transform error'' (Some (errors_New ''bad item'')) True)
   \<and> closed (outC (run (Map_Transform \<lparr>transform = (\<lambda>v. if v = 1 then (0, Some (errors_New ''bad item'')) else (v, None))\<rparr>)
              (drain 28)
              (start (Map_Transform \<lparr>transform = (\<lambda>v. if v = 1 then (0, Some (errors_New ''bad item'')) else (v, None))\<rparr>)
                 0 [1, 2 :: nat] None) :: (nat, nat) sys)) = False"
  by code_simp

text \<open>
  C3. Filter(p) forwards an item iff \<open>p\<close> holds of it, in the original relative order: for
  every schedule the consumer has received a prefix of \<open>filter p xs\<close>, never more items than
  were put in, and the stage sends no event and never stands at an event send; given
  enough turns the output is closed and exactly \<open>filter p xs\<close> has been received.
\<close>

theorem Filter_Transform_keeps_matching:
  "(let s = run (Filter_Transform f) sched (start (Filter_Transform f) n xs e) in
      prefix (received s) (filter (predicate f) xs)
      \<and> received s @ buf (outC s) @ pc_out (pc s) @ filter (predicate f) (buf (inC s) @ pending s)
          = filter (predicate f) xs
      \<and> (pc s = Exited \<longrightarrow> received s @ buf (outC s) = filter (predicate f) xs)
      \<and> length (received s) \<le> length xs
      \<and> emitted s = [] \<and> pc_ev (pc s) = [])
   \<and> (6 * length xs + 8 + backlog e \<le> k \<longrightarrow>
       (let s = run (Filter_Transform f) (sched @ drain k) (start (Filter_Transform f) n xs e) in
          pc s = Exited \<and> closed (outC s)
          \<and> received s = filter (predicate f) xs
          \<and> (\<forall>i. (i \<in> set (received s)) = (i \<in> set xs \<and> predicate f i))
          \<and> length (received s) \<le> length xs
          \<and> emitted s = []))"
proof -
  let ?F = "Filter_Transform f"
  define s where "s = run ?F sched (start ?F n xs e)"
  define t where "t = run ?F (sched @ drain k) (start ?F n xs e)"
  have pre: "prefix (received s) (filter (predicate f) xs)"
    using run_prefix_out [OF s_def] by (simp add: outs_Filter)
  have cons: "received s @ buf (outC s) @ pc_out (pc s) @ filter (predicate f) (buf (inC s) @ pending s)
          = filter (predicate f) xs"
    using run_conserves_out [OF s_def] by (simp add: outs_Filter)
  have ex: "pc s = Exited \<longrightarrow> received s @ buf (outC s) = filter (predicate f) xs"
    using run_exited_out [OF s_def] by (simp add: outs_Filter)
  have len: "length (received s) \<le> length xs"
    using prefix_length_le [OF pre] length_filter_le [of "predicate f" xs] by linarith
  have live: "live ?F s"
    unfolding s_def
    by (rule live_run [OF consistent_start live_start]) (simp add: evts_Filter)
  then have np: "pc s \<noteq> Panicked"
    by (simp add: live_def)
  have "emitted s @ pc_ev (pc s) @ evts (body ?F) (buf (inC s) @ pending s) = []"
    using run_conserves_ev [OF s_def np] by (simp add: evts_Filter)
  then have ev: "emitted s = [] \<and> pc_ev (pc s) = []"
    by simp
  have fin: "6 * length xs + 8 + backlog e \<le> k \<longrightarrow>
      pc t = Exited \<and> closed (outC t) \<and> received t = filter (predicate f) xs
      \<and> (\<forall>i. (i \<in> set (received t)) = (i \<in> set xs \<and> predicate f i))
      \<and> length (received t) \<le> length xs \<and> emitted t = []"
  proof
    assume k: "6 * length xs + 8 + backlog e \<le> k"
    have "accepting e \<or> evts (body ?F) xs = []"
      by (simp add: evts_Filter)
    from run_finishes [OF this k t_def] show "pc t = Exited \<and> closed (outC t)
      \<and> received t = filter (predicate f) xs
      \<and> (\<forall>i. (i \<in> set (received t)) = (i \<in> set xs \<and> predicate f i))
      \<and> length (received t) \<le> length xs \<and> emitted t = []"
      by (simp add: outs_Filter evts_Filter)
  qed
  show ?thesis
    using pre cons ex len ev fin unfolding Let_def s_def t_def by blast
qed

theorem Filter_Transform_keeps_matching_witness:
  "6 * length [1, 2, 3, 4 :: nat] + 8 + backlog None \<le> 32
   \<and> (let s = run (Filter_Transform \<lparr>predicate = even\<rparr>) (drain 32)
                (start (Filter_Transform \<lparr>predicate = even\<rparr>) 0 [1, 2, 3, 4 :: nat] None)
      in pc s = Exited \<and> closed (outC s) \<and> received s @ buf (outC s) = [2, 4]
         \<and> received s = [2, 4] \<and> emitted s = [])"
  using Filter_Transform_keeps_matching
      [of "\<lparr>predicate = even\<rparr>" "[]" 0 "[1, 2, 3, 4 :: nat]" None 32]
    Filter_Transform_keeps_matching
      [of "\<lparr>predicate = even\<rparr>" "drain 32" 0 "[1, 2, 3, 4 :: nat]" None 32]
  by (simp add: Let_def backlog_def)

text \<open>
  C4. FilterMap(p, f) agrees with Filter(p) composed with Map(f). Take the pipeline in
  which Map(f) reads the output channel of Filter(p), under any schedule, and a
  FilterMap(p, f) stage on the same input, under any schedule: whenever both have
  returned and their outputs are drained, the consumer has received the same items from
  both, and the same events have been sent, up to the message text. With event streams
  that accept events both do return, given enough turns.
\<close>

theorem FilterMap_equals_Filter_then_Map:
  "(let P = prun (Filter_Transform \<lparr>predicate = p\<rparr>) (Map_Transform \<lparr>transform = t\<rparr>) schedP
              (pstart (Filter_Transform \<lparr>predicate = p\<rparr>) (Map_Transform \<lparr>transform = t\<rparr>)
                 nP xs eP);
        S = run (FilterMap_Transform \<lparr>fm_predicate = p, fm_transform = t\<rparr>) schedS
              (start (FilterMap_Transform \<lparr>fm_predicate = p, fm_transform = t\<rparr>) nS xs eS)
    in pc2 P = Exited \<and> buf (outC2 P) = [] \<and> pc S = Exited \<and> buf (outC S) = []
       \<longrightarrow> received S = received2 P
           \<and> emitted S = map (with_msg ''filtermap error transforming data'') (emitted2 P))
   \<and> (accepting eP \<and> accepting eS
       \<and> 16 * length xs + 14 + backlog eP \<le> kP
       \<and> 6 * length xs + 8 + backlog eS \<le> kS \<longrightarrow>
       (let P = prun (Filter_Transform \<lparr>predicate = p\<rparr>) (Map_Transform \<lparr>transform = t\<rparr>)
                  (schedP @ pdrain kP)
                  (pstart (Filter_Transform \<lparr>predicate = p\<rparr>) (Map_Transform \<lparr>transform = t\<rparr>)
                     nP xs eP);
            S = run (FilterMap_Transform \<lparr>fm_predicate = p, fm_transform = t\<rparr>) (schedS @ drain kS)
                  (start (FilterMap_Transform \<lparr>fm_predicate = p, fm_transform = t\<rparr>) nS xs eS)
        in closed (outC2 P) \<and> closed (outC S)
           \<and> received S = received2 P
           \<and> emitted S = map (with_msg ''filtermap error transforming data'') (emitted2 P)))"
proof -
  let ?F = "Filter_Transform \<lparr>predicate = p\<rparr>"
  let ?M = "Map_Transform \<lparr>transform = t\<rparr>"
  let ?FM = "FilterMap_Transform \<lparr>fm_predicate = p, fm_transform = t\<rparr>"
  have safe: "received S = received2 P
           \<and> emitted S = map (with_msg ''filtermap error transforming data'') (emitted2 P)"
    if P: "P = prun ?F ?M a (pstart ?F ?M nP xs eP)"
      and S: "S = run ?FM b (start ?FM nS xs eS)"
      and ex: "pc2 P = Exited" "buf (outC2 P) = []" "pc S = Exited" "buf (outC S) = []"
    for P S a b
  proof -
    have 1: "received2 P = outs (body ?M) (outs (body ?F) xs)"
      "emitted2 P = evts (body ?M) (outs (body ?F) xs)"
      using prun_exited(1,2) [OF quiet_Filter P ex(1)] ex(2) by simp_all
    have 2: "received S = outs (body ?FM) xs" "emitted S = evts (body ?FM) xs"
      using run_exited_out [OF S ex(3)] run_exited_ev [OF S ex(3)] ex(4) by simp_all
    show ?thesis
      unfolding 1 2 FilterMap_as_composition by (simp add: evts_Filter)
  qed
  have A: "pc2 P = Exited \<and> buf (outC2 P) = [] \<and> pc S = Exited \<and> buf (outC S) = []
       \<longrightarrow> received S = received2 P
           \<and> emitted S = map (with_msg ''filtermap error transforming data'') (emitted2 P)"
    if "P = prun ?F ?M schedP (pstart ?F ?M nP xs eP)"
      and "S = run ?FM schedS (start ?FM nS xs eS)"
    for P S
    using safe [OF that] by blast
  have B: "closed (outC2 P) \<and> closed (outC S)
           \<and> received S = received2 P
           \<and> emitted S = map (with_msg ''filtermap error transforming data'') (emitted2 P)"
    if P: "P = prun ?F ?M (schedP @ pdrain kP) (pstart ?F ?M nP xs eP)"
      and S: "S = run ?FM (schedS @ drain kS) (start ?FM nS xs eS)"
      and acc: "accepting eP" "accepting eS"
      and k: "16 * length xs + 14 + backlog eP \<le> kP" "6 * length xs + 8 + backlog eS \<le> kS"
    for P S
  proof -
    have "accepting eP \<or> evts (body ?M) (outs (body ?F) xs) = []"
      using acc(1) by simp
    from prun_finishes [OF quiet_Filter this k(1) P]
    have p: "pc2 P = Exited" "buf (outC2 P) = []"
      by simp_all
    have "accepting eS \<or> evts (body ?FM) xs = []"
      using acc(2) by simp
    from run_finishes [OF this k(2) S]
    have s: "pc S = Exited" "closed (outC S)" "buf (outC S) = []"
      by simp_all
    from safe [OF P S p s(1,3)] prun_exited(3) [OF quiet_Filter P p(1)] s(2)
    show ?thesis by simp
  qed
  show ?thesis
    unfolding Let_def using A B by blast
qed

theorem FilterMap_equals_Filter_then_Map_witness:
  "accepting (Some (make_chan 1 :: Event chan))
   \<and> 16 * length [1, 3, 4 :: nat] + 14 + backlog (Some (make_chan 1 :: Event chan)) \<le> 62
   \<and> 6 * length [1, 3, 4 :: nat] + 8 + backlog (Some (make_chan 1 :: Event chan)) \<le> 26
   \<and> (let P = prun (Filter_Transform \<lparr>predicate = (\<lambda>v. 1 < v)\<rparr>)
                  (Map_Transform \<lparr>transform = (\<lambda>v. if v = 3 then (0, Some (errors_New ''odd'')) else (10 * v, None))\<rparr>)
                  (pdrain 62)
                  (pstart (Filter_Transform \<lparr>predicate = (\<lambda>v. 1 < v)\<rparr>)
                     (Map_Transform \<lparr>transform = (\<lambda>v. if v = 3 then (0, Some (errors_New ''odd'')) else (10 * v, None))\<rparr>)
                     0 [1, 3, 4 :: nat] (Some (make_chan 1)));
            S = run (FilterMap_Transform \<lparr>fm_predicate = (\<lambda>v. 1 < v), fm_transform = (\<lambda>v. if v = 3 then (0, Some (errors_New ''odd'')) else (10 * v, None))\<rparr>)
                  (drain 26)
                  (start (FilterMap_Transform \<lparr>fm_predicate = (\<lambda>v. 1 < v), fm_transform = (\<lambda>v. if v = 3 then (0, Some (errors_New ''odd'')) else (10 * v, None))\<rparr>)
                     2 [1, 3, 4 :: nat] (Some (make_chan 1)))
        in pc2 P = Exited \<and> buf (outC2 P) = [] \<and> pc S = Exited \<and> buf (outC S) = []
           \<and> closed (outC2 P) \<and> closed (outC S)
           \<and> received2 P = [40 :: nat]
           \<and> received S = received2 P
           \<and> emitted2 P = [EvError \<lparr>msg = ''map transform error'', err = Some (errors_New ''odd''),
                                       temporary = True\<rparr>]
           \<and> emitted S = map (with_msg ''filtermap error transforming data'') (emitted2 P))"
proof -
  let ?P = "prun (Filter_Transform \<lparr>predicate = (\<lambda>v. 1 < v)\<rparr>)
                  (Map_Transform \<lparr>transform = (\<lambda>v. if v = 3 then (0, Some (errors_New ''odd'')) else (10 * v, None))\<rparr>)
                  (pdrain 62)
                  (pstart (Filter_Transform \<lparr>predicate = (\<lambda>v. 1 < v)\<rparr>)
                     (Map_Transform \<lparr>transform = (\<lambda>v. if v = 3 then (0, Some (errors_New ''odd'')) else (10 * v, None))\<rparr>)
                     0 [1, 3, 4 :: nat] (Some (make_chan 1)))"
  let ?S = "run (FilterMap_Transform \<lparr>fm_predicate = (\<lambda>v. 1 < v), fm_transform = (\<lambda>v. if v = 3 then (0, Some (errors_New ''odd'')) else (10 * v, None))\<rparr>)
                  (drain 26)
                  (start (FilterMap_Transform \<lparr>fm_predicate = (\<lambda>v. 1 < v), fm_transform = (\<lambda>v. if v = 3 then (0, Some (errors_New ''odd'')) else (10 * v, None))\<rparr>)
                     2 [1, 3, 4 :: nat] (Some (make_chan 1)))"
  have P: "pc2 ?P = Exited" "buf (outC2 ?P) = []" "closed (outC2 ?P)"
    "received2 ?P = [40]"
    "emitted2 ?P = [EvError \<lparr>msg = ''map transform error'', err = Some (errors_New ''odd''),
                                       temporary = True\<rparr>]"
    by code_simp+
  have S: "pc ?S = Exited" "buf (outC ?S) = []" "closed (outC ?S)"
    by code_simp+
  have "pc2 ?P = Exited \<and> buf (outC2 ?P) = [] \<and> pc ?S = Exited \<and> buf (outC ?S) = []
       \<longrightarrow> received ?S = received2 ?P
           \<and> emitted ?S = map (with_msg ''filtermap error transforming data'') (emitted2 ?P)"
    using FilterMap_equals_Filter_then_Map
      [of "\<lambda>v. 1 < v" "\<lambda>v. if v = 3 then (0, Some (errors_New ''odd'')) else (10 * v, None)" "pdrain 62" 0 "[1, 3, 4 :: nat]" "Some (make_chan 1)"
          "drain 26" 2 "Some (make_chan 1)" 62 26]
    unfolding Let_def by (rule conjunct1)
  then have eq: "received ?S = received2 ?P"
    "emitted ?S = map (with_msg ''filtermap error transforming data'') (emitted2 ?P)"
    using P(1,2) S(1,2) by blast+
  have b: "accepting (Some (make_chan 1 :: Event chan))"
    "16 * length [1, 3, 4 :: nat] + 14 + backlog (Some (make_chan 1 :: Event chan)) \<le> 62"
    "6 * length [1, 3, 4 :: nat] + 8 + backlog (Some (make_chan 1 :: Event chan)) \<le> 26"
    by (simp_all add: accepting_def backlog_def make_chan_def)
  show ?thesis
    unfolding Let_def
    using b P S eq by blast
qed

text \<open>
  C5 (amended). On a nil handle SendEvent returns false. On an open stream with no
  parked receiver and no free buffer slot it returns false and leaves the stream as it
  is. On an open stream with a parked receiver it returns true and hands the event to the
  receiver; on an open stream with a free slot it returns true and the event is queued
  last. It never blocks. On a closed stream the send panics: the claim's "true
  otherwise" holds for open streams only.
\<close>

theorem SendEvent_cases:
  "SendEvent None e = Returns (False, None, [])
   \<and> (\<not> closed full \<and> recvq full = 0 \<and> cap full \<le> length (buf full) \<longrightarrow>
        SendEvent (Some full) e = Returns (False, Some full, []))
   \<and> (\<not> closed waited \<and> 0 < recvq waited \<longrightarrow>
        SendEvent (Some waited) e = Returns (True, Some (waited\<lparr>recvq := recvq waited - 1\<rparr>), [e]))
   \<and> (\<not> closed roomy \<and> recvq roomy = 0 \<and> length (buf roomy) < cap roomy \<longrightarrow>
        SendEvent (Some roomy) e = Returns (True, Some (roomy\<lparr>buf := buf roomy @ [e]\<rparr>), []))
   \<and> (closed shut \<longrightarrow> SendEvent (Some shut) e = Panics SendOnClosedChannel)
   \<and> SendEvent h e \<noteq> Blocks"
  by (auto simp: SendEvent_def chan_send_def split: option.splits sent.splits)

theorem SendEvent_cases_witness:
  "SendEvent (Some \<lparr>buf = [EvMock EventLog ''filling event''], cap = 1, closed = False, recvq = 0\<rparr>)
       (EvMock EventLog ''test event'')
     = Returns (False, Some \<lparr>buf = [EvMock EventLog ''filling event''], cap = 1, closed = False, recvq = 0\<rparr>, [])
   \<and> SendEvent (Some \<lparr>buf = [], cap = 0, closed = False, recvq = 1\<rparr>) (EvMock EventLog ''test event'')
     = Returns (True, Some \<lparr>buf = [], cap = 0, closed = False, recvq = 0\<rparr>, [EvMock EventLog ''test event''])
   \<and> SendEvent (Some \<lparr>buf = [], cap = 1, closed = False, recvq = 0\<rparr>) (EvMock EventLog ''test event'')
     = Returns (True, Some \<lparr>buf = [EvMock EventLog ''test event''], cap = 1, closed = False, recvq = 0\<rparr>, [])
   \<and> SendEvent (Some \<lparr>buf = [], cap = 1, closed = True, recvq = 0\<rparr>) (EvMock EventLog ''test event'')
     = Panics SendOnClosedChannel"
  using SendEvent_cases
    [of "EvMock EventLog ''test event''"
        "\<lparr>buf = [EvMock EventLog ''filling event''], cap = 1, closed = False, recvq = 0\<rparr>"
        "\<lparr>buf = [], cap = 0, closed = False, recvq = 1\<rparr>"
        "\<lparr>buf = [], cap = 1, closed = False, recvq = 0\<rparr>"
        "\<lparr>buf = [], cap = 1, closed = True, recvq = 0\<rparr>" None]
  by simp

text \<open>
  A closed stream with a free buffer slot: the handle is not nil and capacity is
  available, yet SendEvent does not return true.
\<close>

theorem SendEvent_closed_counterexample:
  "Some \<lparr>buf = [], cap = 1, closed = True, recvq = 0\<rparr> \<noteq> (None :: Event chan option)
   \<and> length (buf \<lparr>buf = [] :: Event list, cap = 1, closed = True, recvq = 0\<rparr>)
       < cap \<lparr>buf = [] :: Event list, cap = 1, closed = True, recvq = 0\<rparr>
   \<and> SendEvent (Some \<lparr>buf = [], cap = 1, closed = True, recvq = 0\<rparr>) (EvMock EventLog ''test event'')
       = Panics SendOnClosedChannel
   \<and> SendEvent (Some \<lparr>buf = [], cap = 1, closed = True, recvq = 0\<rparr>) (EvMock EventLog ''test event'')
       \<noteq> Returns (True, Some \<lparr>buf = [EvMock EventLog ''test event''], cap = 1, closed = True, recvq = 0\<rparr>, [])"
  by (simp add: SendEvent_def chan_send_def)

text \<open>
  C6. Map.Transform reports with the blocking statement \<^verbatim>\<open>eventC <- event\<close>, not with
  SendEvent. With no event stream (a nil handle) and a first item on which the transform
  fails, the stage stops at that send under every schedule: the second item is never
  delivered and the output is never closed. SendEvent on the same handle would have
  returned false at once; and with an event stream that takes the report, the same stage on
  the same input delivers the second item.
\<close>

theorem Map_Transform_blocks_on_absent_event_stream:
  "received (run (Map_Transform \<lparr>transform = (\<lambda>v. if v = 1 then (0, Some (errors_New ''bad item'')) else (v, None))\<rparr>)
              sched
              (start (Map_Transform \<lparr>transform = (\<lambda>v. if v = 1 then (0, Some (errors_New ''bad item'')) else (v, None))\<rparr>)
                 n [1, 2 :: nat] None)) = ([] :: nat list)
   \<and> \<not> closed (outC (run (Map_Transform \<lparr>transform = (\<lambda>v. if v = 1 then (0, Some (errors_New ''bad item'')) else (v, None))\<rparr>)
              sched
              (start (Map_Transform \<lparr>transform = (\<lambda>v. if v = 1 then (0, Some (errors_New ''bad item'')) else (v, None))\<rparr>)
                 n [1, 2 :: nat] None) :: (nat, nat) sys))
   \<and> send_stmt (None :: Event chan option) (NewErrorEvent ''map transform error'' (Some (errors_New ''bad item'')) True) = Blocks
   \<and> SendEvent None (NewErrorEvent ''map transform error'' (Some (errors_New ''bad item'')) True) = Returns (False, None, [])
   \<and> received (run (Map_Transform \<lparr>transform = (\<lambda>v. if v = 1 then (0, Some (errors_New ''bad item'')) else (v, None))\<rparr>)
              (drain 28)
              (start (Map_Transform \<lparr>transform = (\<lambda>v. if v = 1 then (0, Some (errors_New ''bad item'')) else (v, None))\<rparr>)
                 0 [1, 2 :: nat] (Some (make_chan 1)))) = [2 :: nat]"
proof -
  have responsive: "received (run (Map_Transform \<lparr>transform = (\<lambda>v. if v = 1 then (0, Some (errors_New ''bad item'')) else (v, None))\<rparr>)
              (drain 28)
              (start (Map_Transform \<lparr>transform = (\<lambda>v. if v = 1 then (0, Some (errors_New ''bad item'')) else (v, None))\<rparr>)
                 0 [1, 2 :: nat] (Some (make_chan 1)))) = [2 :: nat]"
    by code_simp
  let ?M = "Map_Transform \<lparr>transform = (\<lambda>v. if v = 1 then (0, Some (errors_New ''bad item'')) else (v, None))\<rparr>
              :: (nat, nat) stage"
  have "first_reports ?M [1, 2]"
    by (simp add: first_reports_def Map_Transform_def)
  from wedged_forever [OF this, of sched n] responsive show ?thesis
    by (simp add: send_stmt_def SendEvent_def)
qed

text \<open>
  C7. \<^verbatim>\<open>Collect\<close> tests \<^verbatim>\<open>isOpen\<close> with a load and sets it with a later store. Two
  goroutines that call \<^verbatim>\<open>Collect\<close> on a new collector, the second testing \<^verbatim>\<open>isOpen\<close>
  before the first has stored it, both find the collector closed: each makes a channel
  and starts a worker on it. The collector then has two open channels, the callers hold
  different handles, \<^verbatim>\<open>c.eventChan\<close> is the second one, and \<^verbatim>\<open>Close\<close> closes that one only
  and waits for ever for the worker of the first. The same two calls one after the other
  give one channel, returned to both callers, and \<^verbatim>\<open>Close\<close> leaves no channel open. The
  limit of \<^verbatim>\<open>make\<close> plays no part as long as it admits the default buffer size 100.
\<close>

theorem EventCollector_Collect_race_two_live_streams:
  "100 \<le> lim \<longrightarrow>
   (case race lim [First, Second, First, First, First, First, Second, Second, Second, Second]
           (CheckOpen, CheckOpen, fresh ([] :: nat EventCollectorOption list)) of
      (a, b, w) \<Rightarrow>
        a = Returned (Some 0) \<and> b = Returned (Some 1)
        \<and> heap w = [make_chan 100, make_chan 100]
        \<and> live_streams w = 2
        \<and> isOpen (collector w) \<and> eventChan (collector w) = Some 1
        \<and> serving w = [0, 1] \<and> wg (collector w) = 2
        \<and> EventCollector_Close w = Blocks)
   \<and> (case race lim [First, First, First, First, First, Second, Second, Second, Second, Second]
           (CheckOpen, CheckOpen, fresh ([] :: nat EventCollectorOption list)) of
      (a, b, w) \<Rightarrow>
        a = Returned (Some 0) \<and> b = Returned (Some 0)
        \<and> heap w = [make_chan 100]
        \<and> live_streams w = 1
        \<and> serving w = [0]
        \<and> (\<exists>w'. EventCollector_Close w = Returns w' \<and> live_streams w' = 0))"
  by (simp add: fresh_def NewEventCollector_def makechan_def live_streams_def make_chan_def
      EventCollector_Close_def chan_close_def Let_def)

theorem EventCollector_Collect_race_two_live_streams_witness:
  "(100 :: nat) \<le> 2 ^ 44
   \<and> (case race (2 ^ 44) [First, Second, First, First, First, First, Second, Second, Second, Second]
           (CheckOpen, CheckOpen, fresh ([] :: nat EventCollectorOption list)) of
      (a, b, w) \<Rightarrow>
        a = Returned (Some 0) \<and> b = Returned (Some 1)
        \<and> heap w = [make_chan 100, make_chan 100]
        \<and> live_streams w = 2
        \<and> isOpen (collector w) \<and> eventChan (collector w) = Some 1
        \<and> serving w = [0, 1] \<and> wg (collector w) = 2
        \<and> EventCollector_Close w = Blocks)"
proof -
  have h: "(100 :: nat) \<le> 2 ^ 44" by simp
  from h EventCollector_Collect_race_two_live_streams [of "2 ^ 44", THEN mp, OF h, THEN conjunct1]
  show ?thesis by (rule conjI)
qed

text \<open>
  C8. \<^verbatim>\<open>NewFilter(nil)\<close>, \<^verbatim>\<open>NewMap(nil)\<close>, \<^verbatim>\<open>NewFilterMap(nil, f)\<close> and
  \<^verbatim>\<open>NewFilterMap(p, nil)\<close> all return an error and no stage, whatever the other argument is.
\<close>

theorem constructors_reject_nil:
  "NewFilter None = Inl (errors_New ''predicate func is nil'')
   \<and> NewMap None = Inl (errors_New ''transform func is nil'')
   \<and> NewFilterMap None f = Inl (errors_New ''predicate func is nil'')
   \<and> NewFilterMap (Some p) None = Inl (errors_New ''transform func is nil'')"
  by (simp add: NewFilter_def NewMap_def NewFilterMap_def)

text \<open>
  C9. The log levels are ordered LevelError < LevelWarn < LevelInfo < LevelDebug; LevelWarn
  is LevelError + 1, LevelInfo is LevelWarn + 2 and LevelDebug is LevelInfo + 1; exactly
  one value lies strictly between LevelWarn and LevelInfo, and no level has it.
\<close>

theorem LogLevel_numbering:
  "LevelError < LevelWarn \<and> LevelWarn < LevelInfo \<and> LevelInfo < LevelDebug
   \<and> LevelWarn = LevelError + 1 \<and> LevelInfo = LevelWarn + 2 \<and> LevelDebug = LevelInfo + 1
   \<and> {l. LevelWarn < l \<and> l < LevelInfo} = {LevelWarn + 1}
   \<and> LevelWarn + 1 \<notin> set LogLevel_names"
proof -
  have v: "LevelError = 3" "LevelWarn = 4" "LevelInfo = 6" "LevelDebug = 7"
    by (simp_all add: LevelError_def LevelWarn_def LevelInfo_def LevelDebug_def iota_plus_3_def)
  have gap: "{l :: 8 word. 4 < l \<and> l < 6} = {5}"
  proof (rule set_eqI)
    fix l :: "8 word"
    have "(4 < l \<and> l < 6) = (unat l = 5)"
      by (auto simp add: word_less_nat_alt)
    also have "\<dots> = (l = 5)"
      by (simp add: word_unat_eq_iff)
    finally show "(l \<in> {l. 4 < l \<and> l < 6}) = (l \<in> {5})" by simp
  qed
  show ?thesis
    by (simp add: v gap LogLevel_names_def)
qed

text \<open>
  C10. Rendering an ErrorEvent (String, Error) yields "<message>: <cause>" exactly when
  the cause is not nil; NewErrorEvent accepts a nil cause, and rendering such an event
  panics with a nil dereference. The Logger sink builds such an event for every item
  whose formatted string is empty, so every event it sends panics when rendered.
\<close>

theorem ErrorEvent_String_nil_cause:
  "ErrorEvent_String \<lparr>msg = m, err = None, temporary = t\<rparr> = Inl NilDereference
   \<and> ErrorEvent_Error \<lparr>msg = m, err = None, temporary = t\<rparr> = Inl NilDereference
   \<and> Event_String (NewErrorEvent m None t) = Inl NilDereference
   \<and> ErrorEvent_String \<lparr>msg = m, err = Some cause, temporary = t\<rparr> = Inr (m @ '': '' @ error_Error cause)
   \<and> ((\<exists>s. ErrorEvent_String e = Inr s) = (err e \<noteq> None))
   \<and> ((\<exists>s. ErrorEvent_Error e = Inr s) = (err e \<noteq> None))
   \<and> (fst (MarshalIndent data) = [] \<longrightarrow>
        Logger_Load MarshalIndent Sprintf [] [data] = [EmitEvent (NewErrorEvent ''formatted data is empty'' None True)])
   \<and> (EmitEvent ev \<in> set (Logger_Load MarshalIndent Sprintf [] xs) \<longrightarrow> Event_String ev = Inl NilDereference)"
proof -
  have a: "EmitEvent ev \<in> set (Logger_Load MarshalIndent Sprintf [] xs) \<longrightarrow> Event_String ev = Inl NilDereference"
    using Logger_Load_events [of ev MarshalIndent Sprintf "[]" xs]
    by (auto simp: NewErrorEvent_def ErrorEvent_String_def)
  have b: "fst (MarshalIndent data) = [] \<longrightarrow>
        Logger_Load MarshalIndent Sprintf [] [data] = [EmitEvent (NewErrorEvent ''formatted data is empty'' None True)]"
    by (auto simp: Let_def split: prod.splits)
  show ?thesis
    using a b
    by (auto simp: NewErrorEvent_def ErrorEvent_String_def ErrorEvent_Error_def split: option.splits)
qed

theorem ErrorEvent_String_nil_cause_witness:
  "fst ((\<lambda>d::nat. ([], Some (errors_New ''json: unsupported value''))) 1) = []
   \<and> Logger_Load (\<lambda>d::nat. ([], Some (errors_New ''json: unsupported value''))) (\<lambda>d. ''+Inf'') [] [1]
       = [EmitEvent (NewErrorEvent ''formatted data is empty'' None True)]
   \<and> EmitEvent (NewErrorEvent ''formatted data is empty'' None True)
       \<in> set (Logger_Load (\<lambda>d::nat. ([], Some (errors_New ''json: unsupported value''))) (\<lambda>d. ''+Inf'') [] [1])
   \<and> Event_String (NewErrorEvent ''formatted data is empty'' None True) = Inl NilDereference"
  using ErrorEvent_String_nil_cause
    [of "''formatted data is empty''" True undefined undefined
        "\<lambda>d::nat. ([], Some (errors_New ''json: unsupported value''))" 1 "\<lambda>d. ''+Inf''"
        "NewErrorEvent ''formatted data is empty'' None True" "[1]"]
  by simp

end
